theory Spec2Isabelle
  imports Main "HOL-Library.Word"
begin

unbundle bit_operations_syntax

section \<open>pete: start of the script, up to the check of the dump length\<close>

text \<open>
  The script \<^verbatim>\<open>pete.py\<close> has no functions for its main part: it runs top to bottom.
  The part modelled here is lines 38 to 77: the pin names are taken from the command line,
  the dump is read, both output files are opened for writing, the header of the equations
  file and its PIN lines are written, and only then the length of the dump is checked.
  The file system is a record of the two output files: \<open>None\<close> is a file that was never
  opened, \<open>Some s\<close> a file opened with mode \<^verbatim>\<open>wt\<close> (created or truncated) into which the
  text \<open>s\<close> has been written. The stem of the path and the bytes of the dump are inputs.
\<close>

datatype pete_error =
    WrongNumberOfPinNames
  | DumpLengthError
  | NoDrivenCombination string

record pete_files =
  f_truthtable :: "string option"
  f_equations :: "string option"

record pete_args =
  pinnames :: "string option"
  stem :: string
  dumpdata :: "nat list"

definition digit_char :: "nat \<Rightarrow> char" where
  "digit_char d = ''0123456789'' ! d"

text \<open>Python's \<^verbatim>\<open>str(n)\<close> for a non-negative integer.\<close>

function str_nat :: "nat \<Rightarrow> string" where
  "str_nat n = (if n < 10 then [digit_char n] else str_nat (n div 10) @ [digit_char (n mod 10)])"
  by pat_completeness auto
termination
  by (relation "measure id") auto

declare str_nat.simps [simp del]

text \<open>Python's \<^verbatim>\<open>s.split(',')\<close>: the result always has at least one element.\<close>

fun split_on :: "char \<Rightarrow> string \<Rightarrow> string list" where
  "split_on c [] = [[]]"
| "split_on c (x # xs) =
     (if x = c then [] # split_on c xs
      else (case split_on c xs of [] \<Rightarrow> [[x]] | w # ws \<Rightarrow> (x # w) # ws))"

definition pin_numbers :: "nat list" where
  "pin_numbers = [1..<10] @ [11..<20]"

definition newline :: string where
  "newline = [CHR 0x0A]"

definition equations_header :: "string \<Rightarrow> string" where
  "equations_header st =
     ''Name '' @ st @ '';'' @ newline @
     ''Device G16V8MA;'' @ newline @
     ''Partno ;'' @ newline @
     ''Revision ;'' @ newline @
     ''Date ;'' @ newline @
     ''Designer ;'' @ newline @
     ''Company ;'' @ newline @
     ''Assembly ;'' @ newline @
     ''Location ;'' @ newline"

definition pin_line :: "nat \<times> string \<Rightarrow> string" where
  "pin_line p = ''PIN '' @ str_nat (fst p) @ ''='' @ snd p @ '';'' @ newline"

text \<open>Appending to an open file; the script never writes to a file it has not opened.\<close>

definition file_write :: "string option \<Rightarrow> string \<Rightarrow> string option" where
  "file_write f s = map_option (\<lambda>c. c @ s) f"

definition no_files :: pete_files where
  "no_files = \<lparr>f_truthtable = None, f_equations = None\<rparr>"

text \<open>Lines 38..44: the table of pin names, in the order of the pin numbers.\<close>

definition pin_names_of :: "pete_args \<Rightarrow> pete_error + (nat \<times> string) list" where
  "pin_names_of args =
     (case pinnames args of
        None \<Rightarrow> Inr (map (\<lambda>k. (k, ''pin'' @ str_nat k)) pin_numbers)
      | Some s \<Rightarrow>
          (let userpinnames = split_on CHR '','' s
           in if length userpinnames \<noteq> 18 then Inl WrongNumberOfPinNames
              else Inr (zip pin_numbers userpinnames)))"

text \<open>
  The outcome of lines 38..77: the error raised there, if any, and the state of the two
  output files at that moment.
\<close>

definition pete_prologue :: "pete_args \<Rightarrow> pete_error option \<times> pete_files" where
  "pete_prologue args =
     (case pin_names_of args of
        Inl e \<Rightarrow> (Some e, no_files)
      | Inr pin_names \<Rightarrow>
          (let fs0 = \<lparr>f_truthtable = Some [], f_equations = Some []\<rparr>;
               fs1 = fs0\<lparr>f_equations := file_write (f_equations fs0) (equations_header (stem args))\<rparr>;
               fs2 = fold (\<lambda>p fs. fs\<lparr>f_equations := file_write (f_equations fs) (pin_line p)\<rparr>)
                       pin_names fs1
           in if length (dumpdata args) \<noteq> 262144 then (Some DumpLengthError, fs2)
              else (None, fs2)))"

section \<open>simplegalasm: JedWriter\<close>

text \<open>
  The fuse map of \<^verbatim>\<open>JedWriter\<close> is a bytearray whose elements are only ever
  \<^verbatim>\<open>ord('0')\<close> or \<^verbatim>\<open>ord('1')\<close> (the constructor and every setter write one of the
  two). It is modelled as a list of booleans, \<open>True\<close> for \<^verbatim>\<open>'1'\<close>; the bytes of the file
  are characters.
\<close>

definition fuse_char :: "bool \<Rightarrow> char" where
  "fuse_char b = (if b then CHR ''1'' else CHR ''0'')"

text \<open>Python's py_slice \<^verbatim>\<open>xs[i:j]\<close> for \<open>0 \<le> i \<le> j\<close>: shorter at the end of the list.\<close>

definition py_slice :: "'a list \<Rightarrow> nat \<Rightarrow> nat \<Rightarrow> 'a list" where
  "py_slice xs i j = take (j - i) (drop i xs)"

definition hex_digit :: "nat \<Rightarrow> char" where
  "hex_digit d = ''0123456789abcdef'' ! d"

function hex_nat :: "nat \<Rightarrow> string" where
  "hex_nat n = (if n < 16 then [hex_digit n] else hex_nat (n div 16) @ [hex_digit (n mod 16)])"
  by pat_completeness auto
termination
  by (relation "measure id") auto

declare hex_nat.simps [simp del]

text \<open>The formats \<^verbatim>\<open>%04d\<close> and \<^verbatim>\<open>%04x\<close>: at least four digits, padded with zeros.\<close>

definition zero_pad4 :: "string \<Rightarrow> string" where
  "zero_pad4 s = replicate (4 - length s) CHR ''0'' @ s"

definition fmt_04d :: "nat \<Rightarrow> string" where
  "fmt_04d n = zero_pad4 (str_nat n)"

definition fmt_04x :: "nat \<Rightarrow> string" where
  "fmt_04x n = zero_pad4 (hex_nat n)"

definition crlf :: string where
  "crlf = [CHR 0x0D, CHR 0x0A]"

text \<open>\<^verbatim>\<open>int(bstr, 2)\<close> on a string of binary digits.\<close>

definition int_base2 :: "bool list \<Rightarrow> nat" where
  "int_base2 bs = foldl (\<lambda>acc b. 2 * acc + (if b then 1 else 0)) 0 bs"

text \<open>The loop of lines 595..599; \<^verbatim>\<open>range(0, n, 8)\<close> has \<open>(n + 7) div 8\<close> elements.\<close>

definition fusecsum :: "bool list \<Rightarrow> nat" where
  "fusecsum fusemap =
     fold (\<lambda>i acc. acc + int_base2 (rev (py_slice fusemap i (i + 8))))
       (map (\<lambda>k. 8 * k) [0..<(length fusemap + 7) div 8]) 0"

definition fuse_line :: "nat \<Rightarrow> bool list \<Rightarrow> string" where
  "fuse_line offset line = ''*L'' @ fmt_04d offset @ '' '' @ map fuse_char line @ crlf"

text \<open>One \<^verbatim>\<open>if line != b'00..0': data += ...\<close> step, for a field of \<open>n\<close> fuses.\<close>

definition add_field :: "bool list \<Rightarrow> nat \<Rightarrow> nat \<Rightarrow> string \<Rightarrow> string" where
  "add_field fusemap n offset data =
     (let line = py_slice fusemap offset (offset + n)
      in if line \<noteq> replicate n False then data @ fuse_line offset line else data)"

text \<open>Lines 536..591: everything before the fuse checksum.\<close>

definition get_file_fields :: "bool list \<Rightarrow> string" where
  "get_file_fields fusemap =
     (let data = [CHR 0x02] @ ''Device: GAL16V8'' @ crlf @ ''*F0'' @ crlf @ ''*G0'' @ crlf
                 @ ''*QF'' @ str_nat (length fusemap) @ crlf;
          data = fold (add_field fusemap 32) (map (\<lambda>k. 32 * k) [0..<64]) data;
          data = add_field fusemap 8 2048 data;
          data = add_field fusemap 64 2056 data;
          data = add_field fusemap 8 2120 data;
          data = add_field fusemap 64 2128 data;
          data = add_field fusemap 1 2192 data;
          data = add_field fusemap 1 2193 data
      in data)"

definition byte_sum :: "string \<Rightarrow> nat" where
  "byte_sum data = fold (\<lambda>b csum. csum + of_char b) data 0"

definition get_file :: "bool list \<Rightarrow> string" where
  "get_file fusemap =
     (let data = get_file_fields fusemap;
          data = data @ ''*C'' @ fmt_04x (fusecsum fusemap) @ crlf;
          data = data @ ''*'' @ crlf;
          data = data @ [CHR 0x03];
          csum = byte_sum data AND 0xffff
      in data @ fmt_04x csum)"

section \<open>simplegalasm: the tokens and the state of the assembler\<close>

text \<open>
  A token is a line number and one of the token classes of \<^verbatim>\<open>Lexer\<close>. The assembler reads
  the token list by index, always forwards; the model passes the rest of the list instead
  of the index, so that \<^verbatim>\<open>tokens[i + k]\<close> is the element \<open>k\<close> of the rest and an index past the
  end, Python's \<^verbatim>\<open>IndexError\<close>, is a rest that is too short.
\<close>

datatype toktype =
    TokenKeywordPin
  | TokenIdentifier string
  | TokenNumber nat
  | TokenOr
  | TokenAnd
  | TokenNot
  | TokenEquals
  | TokenDot
  | TokenEndCmd

type_synonym token = "nat \<times> toktype"

text \<open>
  A key of a Python dictionary can be an integer or a string, and an integer never equals
  a string. The dictionary \<^verbatim>\<open>_pinnumber_by_pinname\<close> is tested with a pin number as key
  at line 297, so its keys are modelled with both kinds.
\<close>

datatype py_key = KInt nat | KStr string

text \<open>
  \<^verbatim>\<open>sum_of_products\<close> is the integer 0 or 1, or a list of products; a product is a set of
  literals, a literal the name of a pin or \<^verbatim>\<open>'!'\<close> followed by the name.
\<close>

datatype sum_of_products_t = SopInt nat | SopList "string set list"

record Equation =
  negated :: bool
  sum_of_products :: sum_of_products_t

text \<open>The errors of \<^verbatim>\<open>assemble\<close>: each \<^verbatim>\<open>RuntimeError\<close> by its message, with the line or the pin it names.\<close>

datatype asm_error =
    IndexError
  | KeyError
  | ExpectedZeroOne nat nat
  | ExpectedEndCmd nat
  | ExpectedNotOrIdentifier nat
  | ExpectedIdentifier nat
  | ExpectedAndOrEndCmd nat
  | PinNotFollowedByNumber nat
  | PinNumberNotFollowedByEquals nat
  | EqualsNotFollowedByIdentifier nat
  | UnexpectedTokenAfterIdentifier nat
  | DuplicatePinNumber nat nat
  | DuplicatePinName string nat
  | InvalidSubIdentifier string nat
  | InvalidSyntax nat
  | NonNegatedUnsupported string
  | MoreThan7Products string
  | UndefinedPins string "string set"
  | NegatedOEUnsupported string
  | MoreThan1OEProduct string

record asm_state =
  pinname_by_pinnumber :: "nat \<rightharpoonup> string"
  pinnumber_by_pinname :: "py_key \<rightharpoonup> nat"
  equations :: "string \<rightharpoonup> Equation"
  oe_equations :: "string \<rightharpoonup> Equation"
  pin_fusemap :: "nat \<rightharpoonup> bool list"
  pin_oe_fusemap :: "nat \<rightharpoonup> bool list"

definition Assembler_init :: asm_state where
  "Assembler_init =
     \<lparr>pinname_by_pinnumber = Map.empty, pinnumber_by_pinname = Map.empty,
      equations = Map.empty, oe_equations = Map.empty,
      pin_fusemap = Map.empty, pin_oe_fusemap = Map.empty\<rparr>"

section \<open>simplegalasm: \<^verbatim>\<open>Assembler._get_equation\<close>\<close>

text \<open>Lines 232..249: one literal, with an optional \<^verbatim>\<open>Not\<close> before the identifier.\<close>

fun read_literal :: "token list \<Rightarrow> asm_error + (string \<times> token list)" where
  "read_literal [] = Inl IndexError"
| "read_literal ((l, TokenNot) # []) = Inl IndexError"
| "read_literal ((l, TokenNot) # (l1, TokenIdentifier name) # ts) = Inr (CHR ''!'' # name, ts)"
| "read_literal ((l, TokenNot) # (l1, t1) # ts) = Inl (ExpectedIdentifier l1)"
| "read_literal ((l, TokenIdentifier name) # ts) = Inr (name, ts)"
| "read_literal ((l, t) # ts) = Inl (ExpectedNotOrIdentifier l)"

lemma read_literal_shorter:
  "read_literal ts = Inr (lit, ts1) \<Longrightarrow> length ts1 < length ts"
  by (induction ts rule: read_literal.induct) auto

text \<open>
  Lines 231..261, the \<^verbatim>\<open>while True\<close> loop: \<open>cur_product\<close> and \<open>sops\<close> are the two
  accumulators. On success the rest returned starts at the \<^verbatim>\<open>EndCmd\<close> token, as the
  index returned by the source points at it.
\<close>

function product_loop ::
  "token list \<Rightarrow> string set \<Rightarrow> string set list \<Rightarrow> asm_error + (token list \<times> string set list)"
where
  "product_loop ts cur_product sops =
     (case read_literal ts of
        Inl e \<Rightarrow> Inl e
      | Inr (lit, ts1) \<Rightarrow>
          (case ts1 of
             [] \<Rightarrow> Inl IndexError
           | (l, t) # ts2 \<Rightarrow>
               (case t of
                  TokenAnd \<Rightarrow> product_loop ts2 (insert lit cur_product) sops
                | TokenOr \<Rightarrow> product_loop ts2 {} (sops @ [insert lit cur_product])
                | TokenEndCmd \<Rightarrow> Inr (ts1, sops @ [insert lit cur_product])
                | _ \<Rightarrow> Inl (ExpectedAndOrEndCmd l))))"
  by pat_completeness auto
termination
  by (relation "measure (\<lambda>(ts, cur, sops). length ts)")
     (auto dest: read_literal_shorter)

declare product_loop.simps [simp del]

fun get_equation :: "token list \<Rightarrow> asm_error + (token list \<times> sum_of_products_t)" where
  "get_equation [] = Inl IndexError"
| "get_equation ((l, TokenNumber n) # ts) =
     (if n \<noteq> 0 \<and> n \<noteq> 1 then Inl (ExpectedZeroOne l n)
      else (case ts of
              [] \<Rightarrow> Inl IndexError
            | (l1, TokenEndCmd) # ts1 \<Rightarrow> Inr (ts, SopInt n)
            | (l1, t1) # ts1 \<Rightarrow> Inl (ExpectedEndCmd l1)))"
| "get_equation ts =
     (case product_loop ts {} [] of
        Inl e \<Rightarrow> Inl e
      | Inr (rest, sops) \<Rightarrow> Inr (rest, SopList sops))"

section \<open>simplegalasm: the statement loop of \<^verbatim>\<open>Assembler.assemble\<close>\<close>

text \<open>\<^verbatim>\<open>tokens[i + k]\<close>, where \<open>ts\<close> is the rest of the tokens from index \<open>i\<close>.\<close>

definition tok_at :: "token list \<Rightarrow> nat \<Rightarrow> asm_error + token" where
  "tok_at ts k = (if k < length ts then Inr (ts ! k) else Inl IndexError)"

definition is_identifier :: "toktype \<Rightarrow> bool" where
  "is_identifier t = (case t of TokenIdentifier name \<Rightarrow> True | _ \<Rightarrow> False)"

text \<open>
  Lines 277..303: a PIN statement; \<open>ts\<close> starts at the \<^verbatim>\<open>PIN\<close> keyword, whose line is \<open>l0\<close>.
  The rest returned is the one after the closing \<^verbatim>\<open>EndCmd\<close> (\<^verbatim>\<open>i += 4\<close>, then the
  \<^verbatim>\<open>i += 1\<close> of line 340).
\<close>

definition pin_statement ::
  "asm_state \<Rightarrow> nat \<Rightarrow> token list \<Rightarrow> asm_error + (asm_state \<times> token list)" where
  "pin_statement st l0 ts =
     (case tok_at ts 1 of Inl e \<Rightarrow> Inl e | Inr (l1, t1) \<Rightarrow>
      (case t1 of
         TokenNumber number \<Rightarrow>
           (case tok_at ts 2 of Inl e \<Rightarrow> Inl e | Inr (l2, t2) \<Rightarrow>
            if t2 \<noteq> TokenEquals then Inl (PinNumberNotFollowedByEquals l1)
            else
              (case tok_at ts 3 of Inl e \<Rightarrow> Inl e | Inr (l3, t3) \<Rightarrow>
               (case t3 of
                  TokenIdentifier name \<Rightarrow>
                    (case tok_at ts 4 of Inl e \<Rightarrow> Inl e | Inr (l4, t4) \<Rightarrow>
                     if t4 \<noteq> TokenEndCmd then Inl (UnexpectedTokenAfterIdentifier l4)
                     else if number \<in> dom (pinname_by_pinnumber st)
                       then Inl (DuplicatePinNumber number l1)
                     else if KInt number \<in> dom (pinnumber_by_pinname st)
                       then Inl (DuplicatePinName name l3)
                     else Inr (st\<lparr>pinname_by_pinnumber := (pinname_by_pinnumber st)(number \<mapsto> name),
                                  pinnumber_by_pinname := (pinnumber_by_pinname st)(KStr name \<mapsto> number)\<rparr>,
                               drop 5 ts))
                | _ \<Rightarrow> Inl (EqualsNotFollowedByIdentifier l3))))
       | _ \<Rightarrow> Inl (PinNotFollowedByNumber l0)))"

text \<open>
  Lines 305..329: an equation or an OE equation; \<open>ts\<close> starts after the \<^verbatim>\<open>Equals\<close> token,
  and the rest returned is the one after the closing \<^verbatim>\<open>EndCmd\<close> (the \<^verbatim>\<open>i += 1\<close> of line 340).
\<close>

definition store_equation ::
  "asm_state \<Rightarrow> bool \<Rightarrow> string \<Rightarrow> token list \<Rightarrow> asm_error + (asm_state \<times> token list)" where
  "store_equation st eqneg name ts =
     (case get_equation ts of
        Inl e \<Rightarrow> Inl e
      | Inr (rest, sop) \<Rightarrow>
          Inr (st\<lparr>equations := (equations st)(name \<mapsto> \<lparr>negated = eqneg, sum_of_products = sop\<rparr>)\<rparr>,
               drop 1 rest))"

definition store_oe_equation ::
  "asm_state \<Rightarrow> bool \<Rightarrow> string \<Rightarrow> token list \<Rightarrow> asm_error + (asm_state \<times> token list)" where
  "store_oe_equation st eqneg name ts =
     (case get_equation ts of
        Inl e \<Rightarrow> Inl e
      | Inr (rest, sop) \<Rightarrow>
          Inr (st\<lparr>oe_equations := (oe_equations st)(name \<mapsto> \<lparr>negated = eqneg, sum_of_products = sop\<rparr>)\<rparr>,
               drop 1 rest))"

text \<open>
  Lines 277..336, after the test for a leading \<^verbatim>\<open>Not\<close>: the chain of \<^verbatim>\<open>if\<close>/\<^verbatim>\<open>elif\<close> on
  the kind of the statement. The conditions read \<^verbatim>\<open>tokens[i + 1]\<close>, \<^verbatim>\<open>tokens[i + 2]\<close> and
  \<^verbatim>\<open>tokens[i + 3]\<close> from left to right and stop at the first that is false.
\<close>

definition statement_body ::
  "asm_state \<Rightarrow> bool \<Rightarrow> token list \<Rightarrow> asm_error + (asm_state \<times> token list)" where
  "statement_body st eqneg ts =
     (case ts of
        [] \<Rightarrow> Inl IndexError
      | (l, t) # _ \<Rightarrow>
          (case t of
             TokenKeywordPin \<Rightarrow> pin_statement st l ts
           | TokenIdentifier name \<Rightarrow>
               (case tok_at ts 1 of Inl e \<Rightarrow> Inl e | Inr (l1, t1) \<Rightarrow>
                if t1 = TokenEquals then store_equation st eqneg name (drop 2 ts)
                else if t1 = TokenDot then
                  (case tok_at ts 2 of Inl e \<Rightarrow> Inl e | Inr (l2, t2) \<Rightarrow>
                   (case t2 of
                      TokenIdentifier sub \<Rightarrow>
                        (case tok_at ts 3 of Inl e \<Rightarrow> Inl e | Inr (l3, t3) \<Rightarrow>
                         if t3 = TokenEquals then
                           (if sub \<noteq> ''OE'' \<and> sub \<noteq> ''oe'' then Inl (InvalidSubIdentifier sub l)
                            else store_oe_equation st eqneg name (drop 4 ts))
                         else Inl (InvalidSyntax l))
                    | _ \<Rightarrow> Inl (InvalidSyntax l)))
                else Inl (InvalidSyntax l))
           | TokenEndCmd \<Rightarrow> Inr (st, drop 1 ts)
           | _ \<Rightarrow> Inl (InvalidSyntax l)))"

text \<open>Lines 271..340: one turn of the \<^verbatim>\<open>while\<close> loop.\<close>

definition statement :: "asm_state \<Rightarrow> token list \<Rightarrow> asm_error + (asm_state \<times> token list)" where
  "statement st ts =
     (case ts of
        [] \<Rightarrow> Inl IndexError
      | (l, t) # rest \<Rightarrow>
          if t = TokenNot then
            (case tok_at ts 1 of Inl e \<Rightarrow> Inl e | Inr (l1, t1) \<Rightarrow>
             if is_identifier t1 then statement_body st True rest
             else statement_body st False ts)
          else statement_body st False ts)"

lemma product_loop_rest:
  "product_loop ts cur sops = Inr (rest, r) \<Longrightarrow> length rest < length ts \<and> rest \<noteq> []"
proof (induction ts cur sops rule: product_loop.induct)
  case (1 ts cur_product sops)
  from "1.prems" obtain lit ts1 where rl: "read_literal ts = Inr (lit, ts1)"
    by (subst (asm) product_loop.simps) (auto split: sum.splits)
  from "1.prems" rl obtain l t ts2 where ts1: "ts1 = (l, t) # ts2"
    by (subst (asm) product_loop.simps) (auto split: list.splits)
  have len: "length ts1 < length ts" using rl by (rule read_literal_shorter)
  show ?case
  proof (cases t)
    case TokenAnd
    with "1.prems" rl ts1 have "product_loop ts2 (insert lit cur_product) sops = Inr (rest, r)"
      by (subst (asm) product_loop.simps) simp
    with "1.IH"(2) [OF rl refl ts1 refl TokenAnd] len ts1 show ?thesis by simp
  next
    case TokenOr
    with "1.prems" rl ts1 have "product_loop ts2 {} (sops @ [insert lit cur_product]) = Inr (rest, r)"
      by (subst (asm) product_loop.simps) simp
    with "1.IH"(1) [OF rl refl ts1 refl TokenOr] len ts1 show ?thesis by simp
  next
    case TokenEndCmd
    with "1.prems" rl ts1 have "rest = ts1"
      by (subst (asm) product_loop.simps) simp
    with len ts1 show ?thesis by simp
  qed (use "1.prems" rl ts1 in \<open>subst (asm) product_loop.simps, simp\<close>)+
qed

lemma get_equation_rest:
  "get_equation ts = Inr (rest, sop) \<Longrightarrow> length rest \<le> length ts \<and> rest \<noteq> []"
proof (induction ts rule: get_equation.induct)
  case (2 l n ts)
  then show ?case by (auto split: if_splits list.splits toktype.splits)
qed (auto split: sum.splits dest: product_loop_rest)

lemma drop1_shorter: "length rest \<le> length ts \<Longrightarrow> rest \<noteq> [] \<Longrightarrow> length (drop 1 rest) < length ts"
  by (cases rest) auto

lemma store_equation_shorter:
  assumes "store_equation st eqneg name ts = Inr (st', rest)"
  shows "length rest < length ts"
proof -
  from assms obtain r sop where g: "get_equation ts = Inr (r, sop)" and rest: "rest = drop 1 r"
    by (auto simp: store_equation_def split: sum.splits)
  from get_equation_rest [OF g] have "length r \<le> length ts" and "r \<noteq> []" by simp_all
  then have "length (drop 1 r) < length ts" by (rule drop1_shorter)
  then show ?thesis unfolding rest .
qed

lemma store_oe_equation_shorter:
  assumes "store_oe_equation st eqneg name ts = Inr (st', rest)"
  shows "length rest < length ts"
proof -
  from assms obtain r sop where g: "get_equation ts = Inr (r, sop)" and rest: "rest = drop 1 r"
    by (auto simp: store_oe_equation_def split: sum.splits)
  from get_equation_rest [OF g] have "length r \<le> length ts" and "r \<noteq> []" by simp_all
  then have "length (drop 1 r) < length ts" by (rule drop1_shorter)
  then show ?thesis unfolding rest .
qed

lemma pin_statement_rest:
  "pin_statement st l0 ts = Inr (st', rest) \<Longrightarrow> rest = drop 5 ts \<and> 4 < length ts"
  unfolding pin_statement_def tok_at_def
  by (simp split: sum.splits toktype.splits if_splits prod.splits)

lemma pin_statement_shorter:
  "pin_statement st l0 ts = Inr (st', rest) \<Longrightarrow> length rest < length ts"
  by (drule pin_statement_rest) auto

lemma statement_body_shorter:
  "statement_body st eqneg ts = Inr (st', rest) \<Longrightarrow> length rest < length ts"
proof (cases ts)
  case Nil
  assume "statement_body st eqneg ts = Inr (st', rest)"
  with Nil show ?thesis by (simp add: statement_body_def)
next
  case (Cons a ts')
  assume r: "statement_body st eqneg ts = Inr (st', rest)"
  obtain l t where a: "a = (l, t)" by (cases a)
  show ?thesis
  proof (cases t)
    case TokenKeywordPin
    with r Cons a have "pin_statement st l ts = Inr (st', rest)"
      by (simp add: statement_body_def)
    then show ?thesis by (rule pin_statement_shorter)
  next
    case (TokenIdentifier name)
    from r Cons a TokenIdentifier
    have "store_equation st eqneg name (drop 2 ts) = Inr (st', rest)
          \<or> store_oe_equation st eqneg name (drop 4 ts) = Inr (st', rest)"
      unfolding statement_body_def tok_at_def
      by (simp split: sum.splits toktype.splits if_splits prod.splits)
    then show ?thesis
    proof
      assume "store_equation st eqneg name (drop 2 ts) = Inr (st', rest)"
      then have "length rest < length (drop 2 ts)" by (rule store_equation_shorter)
      then show ?thesis by simp
    next
      assume "store_oe_equation st eqneg name (drop 4 ts) = Inr (st', rest)"
      then have "length rest < length (drop 4 ts)" by (rule store_oe_equation_shorter)
      then show ?thesis by simp
    qed
  next
    case TokenEndCmd
    with r Cons a show ?thesis by (simp add: statement_body_def)
  qed (use r Cons a in \<open>simp_all add: statement_body_def\<close>)
qed

lemma statement_shorter:
  "statement st ts = Inr (st', rest) \<Longrightarrow> length rest < length ts"
proof (cases ts)
  case Nil
  assume "statement st ts = Inr (st', rest)"
  with Nil show ?thesis by (simp add: statement_def)
next
  case (Cons a ts')
  assume r: "statement st ts = Inr (st', rest)"
  obtain l t where a: "a = (l, t)" by (cases a)
  from r Cons a have "statement_body st False ts = Inr (st', rest)
      \<or> statement_body st True ts' = Inr (st', rest)"
    unfolding statement_def tok_at_def
    by (simp split: sum.splits if_splits prod.splits)
  then show ?thesis
  proof
    assume "statement_body st False ts = Inr (st', rest)"
    then show ?thesis by (rule statement_body_shorter)
  next
    assume "statement_body st True ts' = Inr (st', rest)"
    then have "length rest < length ts'" by (rule statement_body_shorter)
    with Cons show ?thesis by simp
  qed
qed

text \<open>Lines 269..340: the \<^verbatim>\<open>while i < len(tokens)\<close> loop.\<close>

function parse_loop :: "asm_state \<Rightarrow> token list \<Rightarrow> asm_error + asm_state" where
  "parse_loop st ts =
     (if ts = [] then Inr st
      else (case statement st ts of
              Inl e \<Rightarrow> Inl e
            | Inr (st', rest) \<Rightarrow> parse_loop st' rest))"
  by pat_completeness auto
termination
  by (relation "measure (\<lambda>(st, ts). length ts)") (auto dest: statement_shorter)

declare parse_loop.simps [simp del]

section \<open>simplegalasm: the fuse maps of the eight outputs\<close>

text \<open>The 16 inputs of the AND array, in the order of their columns (lines 375 and 422).\<close>

definition input_pins :: "nat list" where
  "input_pins = [2, 1, 3, 18, 4, 17, 5, 16, 6, 15, 7, 14, 8, 13, 9, 11]"

text \<open>\<^verbatim>\<open>range(19, 11, -1)\<close>.\<close>

definition output_pins :: "nat list" where
  "output_pins = [19, 18, 17, 16, 15, 14, 13, 12]"

text \<open>
  Lines 375..390 and 422..437: the loop over the inputs for one product. \<open>base\<close> is
  \<^verbatim>\<open>32 * productidx\<close>; the literals found are removed from \<open>product\<close>, and the fuse of a
  literal that is absent is set.
\<close>

fun fuse_inputs ::
  "(nat \<rightharpoonup> string) \<Rightarrow> nat \<Rightarrow> (nat \<times> nat) list \<Rightarrow> string set \<Rightarrow> bool list
     \<Rightarrow> asm_error + (string set \<times> bool list)" where
  "fuse_inputs names base [] product fm = Inr (product, fm)"
| "fuse_inputs names base ((inputidx, inputpinnum) # rest) product fm =
     (case names inputpinnum of
        None \<Rightarrow> Inl KeyError
      | Some inputpinname \<Rightarrow>
          (let fuseidx = base + 2 * inputidx;
               product1 = (if inputpinname \<in> product then product - {inputpinname} else product);
               fm1 = (if inputpinname \<in> product then fm else fm[fuseidx := True]);
               product2 = (if CHR ''!'' # inputpinname \<in> product1
                           then product1 - {CHR ''!'' # inputpinname} else product1);
               fm2 = (if CHR ''!'' # inputpinname \<in> product1 then fm1 else fm1[fuseidx + 1 := True])
           in fuse_inputs names base rest product2 fm2))"

definition enumerate_list :: "'a list \<Rightarrow> (nat \<times> 'a) list" where
  "enumerate_list xs = zip [0..<length xs] xs"

text \<open>Lines 366..395: the loop over the products of a level equation.\<close>

fun fuse_products ::
  "(nat \<rightharpoonup> string) \<Rightarrow> string \<Rightarrow> nat \<Rightarrow> string set list \<Rightarrow> bool list \<Rightarrow> asm_error + bool list" where
  "fuse_products names outputpinname productidx [] fm = Inr fm"
| "fuse_products names outputpinname productidx (product # ps) fm =
     (if productidx > 6 then Inl (MoreThan7Products outputpinname)
      else (case fuse_inputs names (32 * productidx) (enumerate_list input_pins) product fm of
              Inl e \<Rightarrow> Inl e
            | Inr (left, fm1) \<Rightarrow>
                if left \<noteq> {} then Inl (UndefinedPins outputpinname left)
                else fuse_products names outputpinname (productidx + 1) ps fm1))"

text \<open>The slice assignment \<^verbatim>\<open>fm[0:32] = 32 * (1, )\<close>.\<close>

definition set_first_row :: "bool list \<Rightarrow> bool list" where
  "set_first_row fm = replicate 32 True @ drop 32 fm"

text \<open>Lines 349..395: the level equation of one output, if there is one.\<close>

definition level_fuses ::
  "asm_state \<Rightarrow> string \<Rightarrow> asm_error + (bool list \<times> bool list)" where
  "level_fuses st outputpinname =
     (let pin_fusemap0 = replicate (7 * 32) False;
          pin_oe_fusemap0 = replicate 32 False
      in case equations st outputpinname of
           None \<Rightarrow> Inr (pin_fusemap0, pin_oe_fusemap0)
         | Some eq \<Rightarrow>
             (let pin_oe_fusemap1 = (if outputpinname \<notin> dom (oe_equations st)
                                     then set_first_row pin_oe_fusemap0 else pin_oe_fusemap0)
              in if \<not> negated eq then Inl (NonNegatedUnsupported outputpinname)
                 else (case sum_of_products eq of
                         SopInt n \<Rightarrow>
                           Inr (if n \<noteq> 0 then set_first_row pin_fusemap0 else pin_fusemap0,
                                pin_oe_fusemap1)
                       | SopList ps \<Rightarrow>
                           (case fuse_products (pinname_by_pinnumber st) outputpinname 0 ps pin_fusemap0 of
                              Inl e \<Rightarrow> Inl e
                            | Inr fm \<Rightarrow> Inr (fm, pin_oe_fusemap1)))))"

text \<open>Lines 399..440: the OE equation of one output, if there is one.\<close>

definition oe_fuses :: "asm_state \<Rightarrow> string \<Rightarrow> bool list \<Rightarrow> asm_error + bool list" where
  "oe_fuses st outputpinname pin_oe_fusemap1 =
     (case oe_equations st outputpinname of
        None \<Rightarrow> Inr pin_oe_fusemap1
      | Some eq \<Rightarrow>
          if negated eq then Inl (NegatedOEUnsupported outputpinname)
          else (case sum_of_products eq of
                  SopInt n \<Rightarrow> Inr (if n \<noteq> 0 then set_first_row pin_oe_fusemap1 else pin_oe_fusemap1)
                | SopList ps \<Rightarrow>
                    if length ps > 1 then Inl (MoreThan1OEProduct outputpinname)
                    else (case ps of
                            [] \<Rightarrow> Inl IndexError
                          | product # _ \<Rightarrow>
                              (case fuse_inputs (pinname_by_pinnumber st) 0 (enumerate_list input_pins)
                                      product pin_oe_fusemap1 of
                                 Inl e \<Rightarrow> Inl e
                               | Inr (left, fm) \<Rightarrow>
                                   if left \<noteq> {} then Inl (UndefinedPins outputpinname left)
                                   else Inr fm))))"

text \<open>Lines 342..446: one turn of the loop over the outputs.\<close>

definition assemble_output :: "nat \<Rightarrow> asm_state \<Rightarrow> asm_error + asm_state" where
  "assemble_output outputpinnum st =
     (case pinname_by_pinnumber st outputpinnum of
        None \<Rightarrow> Inl KeyError
      | Some outputpinname \<Rightarrow>
          (case level_fuses st outputpinname of
             Inl e \<Rightarrow> Inl e
           | Inr (fm, oe1) \<Rightarrow>
               (case oe_fuses st outputpinname oe1 of
                  Inl e \<Rightarrow> Inl e
                | Inr oe2 \<Rightarrow>
                    Inr (st\<lparr>pin_fusemap := (pin_fusemap st)(outputpinnum \<mapsto> fm),
                            pin_oe_fusemap := (pin_oe_fusemap st)(outputpinnum \<mapsto> oe2)\<rparr>))))"

fun assemble_outputs :: "nat list \<Rightarrow> asm_state \<Rightarrow> asm_error + asm_state" where
  "assemble_outputs [] st = Inr st"
| "assemble_outputs (outputpinnum # rest) st =
     (case assemble_output outputpinnum st of
        Inl e \<Rightarrow> Inl e
      | Inr st1 \<Rightarrow> assemble_outputs rest st1)"

text \<open>\<^verbatim>\<open>Assembler.assemble\<close>, on a fresh \<^verbatim>\<open>Assembler\<close>.\<close>

definition assemble :: "token list \<Rightarrow> asm_error + asm_state" where
  "assemble tokens =
     (case parse_loop Assembler_init tokens of
        Inl e \<Rightarrow> Inl e
      | Inr st \<Rightarrow> assemble_outputs output_pins st)"

text \<open>The error of a run, \<open>None\<close> when \<^verbatim>\<open>assemble\<close> returns.\<close>

definition assemble_error :: "token list \<Rightarrow> asm_error option" where
  "assemble_error tokens = (case assemble tokens of Inl e \<Rightarrow> Some e | Inr st \<Rightarrow> None)"

section \<open>simplegalasm: notions used to state the properties of \<^verbatim>\<open>assemble\<close>\<close>

text \<open>The five tokens of the statement \<^verbatim>\<open>PIN number = name;\<close> on line \<open>l\<close>.\<close>

definition pin_tokens :: "nat \<Rightarrow> nat \<Rightarrow> string \<Rightarrow> token list" where
  "pin_tokens l number name =
     [(l, TokenKeywordPin), (l, TokenNumber number), (l, TokenEquals),
      (l, TokenIdentifier name), (l, TokenEndCmd)]"

text \<open>
  The PIN declarations of a token stream, in the order of the stream: every place where
  the keyword \<^verbatim>\<open>PIN\<close> is followed by a number, an equals sign and an identifier.
\<close>

definition pin_decl_at :: "token list \<Rightarrow> (nat \<times> string) option" where
  "pin_decl_at ts =
     (if 3 < length ts \<and> snd (ts ! 0) = TokenKeywordPin \<and> snd (ts ! 2) = TokenEquals
      then (case snd (ts ! 1) of
              TokenNumber number \<Rightarrow>
                (case snd (ts ! 3) of TokenIdentifier name \<Rightarrow> Some (number, name) | _ \<Rightarrow> None)
            | _ \<Rightarrow> None)
      else None)"

fun pin_decls :: "token list \<Rightarrow> (nat \<times> string) list" where
  "pin_decls [] = []"
| "pin_decls (tk # ts) =
     (case pin_decl_at (tk # ts) of
        Some d \<Rightarrow> d # pin_decls ts
      | None \<Rightarrow> pin_decls ts)"

text \<open>The name table holds string keys only.\<close>

definition str_keys :: "asm_state \<Rightarrow> bool" where
  "str_keys st = (\<forall>n. pinnumber_by_pinname st (KInt n) = None)"

text \<open>The state after a PIN statement that was accepted.\<close>

definition declare_pin :: "nat \<Rightarrow> string \<Rightarrow> asm_state \<Rightarrow> asm_state" where
  "declare_pin number name st =
     st\<lparr>pinname_by_pinnumber := (pinname_by_pinnumber st)(number \<mapsto> name),
        pinnumber_by_pinname := (pinnumber_by_pinname st)(KStr name \<mapsto> number)\<rparr>"

text \<open>Two states with the same tables of pins.\<close>

definition same_pins :: "asm_state \<Rightarrow> asm_state \<Rightarrow> bool" where
  "same_pins st st' =
     (pinname_by_pinnumber st' = pinname_by_pinnumber st
      \<and> pinnumber_by_pinname st' = pinnumber_by_pinname st)"

text \<open>
  What one statement does to the tables of pins, when it is accepted: nothing, and the
  statement contains no PIN keyword; or it declares one pin that was not declared before.
\<close>

definition pin_step :: "asm_state \<Rightarrow> token list \<Rightarrow> asm_state \<Rightarrow> token list \<Rightarrow> bool" where
  "pin_step st ts st' rest =
     ((same_pins st st' \<and> (\<exists>c. ts = c @ rest \<and> (\<forall>tk \<in> set c. snd tk \<noteq> TokenKeywordPin)))
      \<or> (\<exists>number name. number \<notin> dom (pinname_by_pinnumber st)
            \<and> same_pins (declare_pin number name st) st'
            \<and> pin_decls ts = (number, name) # pin_decls rest))"

text \<open>The two tables of pins after a list of declarations, a later one overriding.\<close>

fun names_after :: "(nat \<times> string) list \<Rightarrow> (nat \<rightharpoonup> string) \<Rightarrow> (nat \<rightharpoonup> string)" where
  "names_after [] m = m"
| "names_after (d # ds) m = names_after ds (m(fst d \<mapsto> snd d))"

fun numbers_after :: "(nat \<times> string) list \<Rightarrow> (py_key \<rightharpoonup> nat) \<Rightarrow> (py_key \<rightharpoonup> nat)" where
  "numbers_after [] m = m"
| "numbers_after (d # ds) m = numbers_after ds (m(KStr (snd d) \<mapsto> fst d))"

text \<open>
  The errors for unsupported equations (lines 360, 373, 393, 409, 416 and 440), and the
  output pin that each of them names.
\<close>

fun unsupported_error :: "asm_error \<Rightarrow> bool" where
  "unsupported_error (NonNegatedUnsupported p) = True"
| "unsupported_error (MoreThan7Products p) = True"
| "unsupported_error (UndefinedPins p left) = True"
| "unsupported_error (NegatedOEUnsupported p) = True"
| "unsupported_error (MoreThan1OEProduct p) = True"
| "unsupported_error e = False"

fun error_pin :: "asm_error \<Rightarrow> string" where
  "error_pin (NonNegatedUnsupported p) = p"
| "error_pin (MoreThan7Products p) = p"
| "error_pin (UndefinedPins p left) = p"
| "error_pin (NegatedOEUnsupported p) = p"
| "error_pin (MoreThan1OEProduct p) = p"
| "error_pin e = []"

text \<open>The literals of a list of pins: the name of each pin that is declared, plain and negated.\<close>

definition pin_literals :: "(nat \<rightharpoonup> string) \<Rightarrow> nat list \<Rightarrow> string set" where
  "pin_literals names ns =
     (\<Union>n \<in> set ns. case names n of None \<Rightarrow> {} | Some a \<Rightarrow> {a, CHR ''!'' # a})"

text \<open>The literals that a product may use: those of the 16 inputs of the AND array.\<close>

definition array_literals :: "asm_state \<Rightarrow> string set" where
  "array_literals st = pin_literals (pinname_by_pinnumber st) input_pins"

definition level_unsupported :: "string set \<Rightarrow> Equation \<Rightarrow> bool" where
  "level_unsupported L eq =
     (\<not> negated eq
      \<or> (case sum_of_products eq of
            SopInt n \<Rightarrow> False
          | SopList ps \<Rightarrow> length ps > 7 \<or> (\<exists>p \<in> set ps. \<not> p \<subseteq> L)))"

definition oe_unsupported :: "string set \<Rightarrow> Equation \<Rightarrow> bool" where
  "oe_unsupported L eq =
     (negated eq
      \<or> (case sum_of_products eq of
            SopInt n \<Rightarrow> False
          | SopList ps \<Rightarrow> length ps > 1 \<or> (\<exists>p \<in> set ps. \<not> p \<subseteq> L)))"

text \<open>
  The output pin \<open>n\<close> has an unsupported equation: the level equation or the OE equation
  stored under its name is unsupported.
\<close>

definition pin_unsupported :: "asm_state \<Rightarrow> nat \<Rightarrow> bool" where
  "pin_unsupported st n =
     (case pinname_by_pinnumber st n of
        None \<Rightarrow> False
      | Some name \<Rightarrow>
          (case equations st name of None \<Rightarrow> False
           | Some eq \<Rightarrow> level_unsupported (array_literals st) eq)
          \<or> (case oe_equations st name of None \<Rightarrow> False
              | Some eq \<Rightarrow> oe_unsupported (array_literals st) eq))"

text \<open>All 18 pins of the device, 1 to 9 and 11 to 19, are declared.\<close>

definition all_declared :: "asm_state \<Rightarrow> bool" where
  "all_declared st = (\<forall>n \<in> set input_pins \<union> set output_pins. n \<in> dom (pinname_by_pinnumber st))"

text \<open>No stored equation has an empty list of products.\<close>

definition sops_nonempty :: "asm_state \<Rightarrow> bool" where
  "sops_nonempty st =
     (\<forall>name eq. oe_equations st name = Some eq \<longrightarrow> sum_of_products eq \<noteq> SopList [])"

text \<open>Two states that differ in the fuse maps only.\<close>

definition same_program :: "asm_state \<Rightarrow> asm_state \<Rightarrow> bool" where
  "same_program st st' =
     (same_pins st st' \<and> equations st' = equations st \<and> oe_equations st' = oe_equations st)"

text \<open>The PIN statements of a list of declarations, the statement of pin \<open>n\<close> on line \<open>n\<close>.\<close>

fun pin_lines :: "(nat \<times> string) list \<Rightarrow> token list" where
  "pin_lines [] = []"
| "pin_lines (d # ds) = pin_tokens (fst d) (fst d) (snd d) @ pin_lines ds"

text \<open>A declaration of each of the 18 pins, named after their numbers.\<close>

definition device_pins :: "(nat \<times> string) list" where
  "device_pins =
     [(1, ''p1''), (2, ''p2''), (3, ''p3''), (4, ''p4''), (5, ''p5''), (6, ''p6''),
      (7, ''p7''), (8, ''p8''), (9, ''p9''), (11, ''p11''), (12, ''p12''), (13, ''p13''),
      (14, ''p14''), (15, ''p15''), (16, ''p16''), (17, ''p17''), (18, ''p18''), (19, ''p19'')]"

text \<open>The state after a list of declarations that are all accepted.\<close>

fun declare_all :: "(nat \<times> string) list \<Rightarrow> asm_state \<Rightarrow> asm_state" where
  "declare_all [] st = st"
| "declare_all (d # ds) st = declare_all ds (declare_pin (fst d) (snd d) st)"

text \<open>
  Three programs for the device with all pins declared: the equation \<^verbatim>\<open>p19 = p2;\<close>, which
  is not negated; the equation \<^verbatim>\<open>!p19 = p2;\<close>; and the state of the assembler after the
  statement loop for each of them.
\<close>

definition nonneg_example :: "token list" where
  "nonneg_example = pin_lines device_pins
     @ [(20, TokenIdentifier ''p19''), (20, TokenEquals), (20, TokenIdentifier ''p2''), (20, TokenEndCmd)]"

definition nonneg_state :: asm_state where
  "nonneg_state = (declare_all device_pins Assembler_init)
     \<lparr>equations := [''p19'' \<mapsto> \<lparr>negated = False, sum_of_products = SopList [{''p2''}]\<rparr>]\<rparr>"

definition negated_example :: "token list" where
  "negated_example = pin_lines device_pins
     @ [(20, TokenNot), (20, TokenIdentifier ''p19''), (20, TokenEquals), (20, TokenIdentifier ''p2''),
        (20, TokenEndCmd)]"

definition negated_state :: asm_state where
  "negated_state = (declare_all device_pins Assembler_init)
     \<lparr>equations := [''p19'' \<mapsto> \<lparr>negated = True, sum_of_products = SopList [{''p2''}]\<rparr>]\<rparr>"

text \<open>The 18 declarations again, with pins 1 and 2 given the same name.\<close>

definition dup_name_pins :: "(nat \<times> string) list" where
  "dup_name_pins =
     [(1, ''a''), (2, ''a''), (3, ''p3''), (4, ''p4''), (5, ''p5''), (6, ''p6''),
      (7, ''p7''), (8, ''p8''), (9, ''p9''), (11, ''p11''), (12, ''p12''), (13, ''p13''),
      (14, ''p14''), (15, ''p15''), (16, ''p16''), (17, ''p17''), (18, ''p18''), (19, ''p19'')]"

section \<open>pete: what is on disk when the dump has the wrong length\<close>
lemma file_write_Some: "file_write (Some c) s = Some (c @ s)"
  by (simp add: file_write_def)

lemma fold_pin_lines:
  "fold (\<lambda>p fs. fs\<lparr>f_equations := file_write (f_equations fs) (pin_line p)\<rparr>) ps
     \<lparr>f_truthtable = t, f_equations = Some c\<rparr>
   = \<lparr>f_truthtable = t, f_equations = Some (c @ concat (map pin_line ps))\<rparr>"
  by (induction ps arbitrary: c) (simp_all add: file_write_Some)

lemma default_pin_lines:
  "concat (map pin_line (map (\<lambda>k. (k, ''pin'' @ str_nat k)) pin_numbers)) =
     ''PIN 1=pin1;\<newline>PIN 2=pin2;\<newline>PIN 3=pin3;\<newline>PIN 4=pin4;\<newline>PIN 5=pin5;\<newline>PIN 6=pin6;\<newline>PIN 7=pin7;\<newline>PIN 8=pin8;\<newline>PIN 9=pin9;\<newline>PIN 11=pin11;\<newline>PIN 12=pin12;\<newline>PIN 13=pin13;\<newline>PIN 14=pin14;\<newline>PIN 15=pin15;\<newline>PIN 16=pin16;\<newline>PIN 17=pin17;\<newline>PIN 18=pin18;\<newline>PIN 19=pin19;\<newline>''"
  by (simp add: pin_numbers_def pin_line_def str_nat.simps digit_char_def newline_def upt_rec)

lemma header_x:
  "equations_header ''x'' = ''Name x;\<newline>Device G16V8MA;\<newline>Partno ;\<newline>Revision ;\<newline>Date ;\<newline>Designer ;\<newline>Company ;\<newline>Assembly ;\<newline>Location ;\<newline>''"
  by (simp add: equations_header_def newline_def)
text \<open>
  Claim C7, as amended. When the dump does not have 262144 bytes (and the pin names were
  accepted), the script stops with the dump-length error at line 77. At that moment both
  output files have been opened for writing, the truth-table file is empty, and the
  equations file holds the nine header lines followed by the PIN line of each of the 18
  pins: nothing of the analysis (no truth table, no equation) has been written.
\<close>

theorem pete_wrong_length_outcome:
  assumes "pin_names_of args = Inr names"
    and "length (dumpdata args) \<noteq> 262144"
  shows "pete_prologue args =
           (Some DumpLengthError,
            \<lparr>f_truthtable = Some [],
               f_equations = Some (equations_header (stem args) @ concat (map pin_line names))\<rparr>)"
  using assms by (simp add: pete_prologue_def file_write_Some fold_pin_lines)

theorem pete_wrong_length_outcome_witness:
  "pin_names_of \<lparr>pinnames = None, stem = ''x'', dumpdata = [0, 1, 2]\<rparr>
     = Inr (map (\<lambda>k. (k, ''pin'' @ str_nat k)) pin_numbers)
   \<and> length (dumpdata \<lparr>pinnames = None, stem = ''x'', dumpdata = [0, 1, 2]\<rparr>) \<noteq> 262144
   \<and> pete_prologue \<lparr>pinnames = None, stem = ''x'', dumpdata = [0, 1, 2]\<rparr> =
       (Some DumpLengthError,
        \<lparr>f_truthtable = Some [],
           f_equations = Some (equations_header ''x''
              @ concat (map pin_line (map (\<lambda>k. (k, ''pin'' @ str_nat k)) pin_numbers)))\<rparr>)"
proof -
  have a: "pin_names_of \<lparr>pinnames = None, stem = ''x'', dumpdata = [0, 1, 2]\<rparr>
     = Inr (map (\<lambda>k. (k, ''pin'' @ str_nat k)) pin_numbers)"
    by (simp add: pin_names_of_def)
  have b: "length (dumpdata \<lparr>pinnames = None, stem = ''x'', dumpdata = [0, 1, 2]\<rparr>) \<noteq> 262144"
    by simp
  show ?thesis
    using a b pete_wrong_length_outcome [OF a b] by simp
qed

text \<open>
  Claim C7 as stated fails: with the default pin names and an empty dump the script raises
  the dump-length error, and by then the equations file has been created and holds the
  header and the 18 PIN lines.
\<close>

theorem pete_wrong_length_counterexample:
  "fst (pete_prologue \<lparr>pinnames = None, stem = ''x'', dumpdata = []\<rparr>) = Some DumpLengthError
   \<and> f_truthtable (snd (pete_prologue \<lparr>pinnames = None, stem = ''x'', dumpdata = []\<rparr>)) = Some []
   \<and> f_equations (snd (pete_prologue \<lparr>pinnames = None, stem = ''x'', dumpdata = []\<rparr>)) =
       Some (''Name x;\<newline>Device G16V8MA;\<newline>Partno ;\<newline>Revision ;\<newline>Date ;\<newline>Designer ;\<newline>Company ;\<newline>Assembly ;\<newline>Location ;\<newline>''
         @ ''PIN 1=pin1;\<newline>PIN 2=pin2;\<newline>PIN 3=pin3;\<newline>PIN 4=pin4;\<newline>PIN 5=pin5;\<newline>PIN 6=pin6;\<newline>PIN 7=pin7;\<newline>PIN 8=pin8;\<newline>PIN 9=pin9;\<newline>PIN 11=pin11;\<newline>PIN 12=pin12;\<newline>PIN 13=pin13;\<newline>PIN 14=pin14;\<newline>PIN 15=pin15;\<newline>PIN 16=pin16;\<newline>PIN 17=pin17;\<newline>PIN 18=pin18;\<newline>PIN 19=pin19;\<newline>'')"
  by (simp only: pete_prologue_def pin_names_of_def pete_args.simps option.case sum.case Let_def
        pete_files.simps file_write_Some fold_pin_lines default_pin_lines header_x list.size
        append_Nil fst_conv snd_conv) simp

section \<open>JedWriter: the fuse checksum is not truncated to 16 bits\<close>

lemma fold_add_sum_list:
  "fold (\<lambda>i acc. acc + f i) xs (a::nat) = a + sum_list (map f xs)"
  by (induction xs arbitrary: a) simp_all

lemma fusecsum_sum_list:
  "fusecsum fusemap =
     sum_list (map (\<lambda>k. int_base2 (rev (py_slice fusemap (8 * k) (8 * k + 8))))
       [0..<(length fusemap + 7) div 8])"
  by (simp add: fusecsum_def fold_add_sum_list comp_def)

lemma py_slice_replicate:
  "py_slice (replicate n x) i j = replicate (min (j - i) (n - i)) x"
  by (simp add: py_slice_def)

lemma int_base2_ones8: "int_base2 (replicate 8 True) = 255"
  by (simp add: int_base2_def numeral_eq_Suc)

lemma int_base2_ones2: "int_base2 (replicate 2 True) = 3"
  by (simp add: int_base2_def numeral_eq_Suc)

lemma sum_list_const: "(\<And>x. x \<in> set xs \<Longrightarrow> f x = c) \<Longrightarrow> sum_list (map f xs) = length xs * c"
  by (induction xs) simp_all

lemma fusecsum_all_ones: "fusecsum (replicate 2194 True) = 69873"
proof -
  have full: "int_base2 (rev (py_slice (replicate 2194 True) (8 * k) (8 * k + 8))) = 255"
    if "k \<in> set [0..<274]" for k
  proof -
    from that have "8 \<le> 2194 - 8 * k" by simp
    then have "min 8 (2194 - 8 * k) = 8" by simp
    then show ?thesis by (simp add: py_slice_replicate int_base2_ones8)
  qed
  have last: "int_base2 (rev (py_slice (replicate 2194 True) (8 * 274) (8 * 274 + 8))) = 3"
    by (simp add: py_slice_replicate int_base2_ones2)
  have split: "[0..<(length (replicate 2194 True) + 7) div 8] = [0..<274] @ [274]"
  proof -
    have "[0..<Suc 274] = [0..<274] @ [274]" by (rule upt_Suc_append) simp
    then show ?thesis by simp
  qed
  have "sum_list (map (\<lambda>k. int_base2 (rev (py_slice (replicate 2194 True) (8 * k) (8 * k + 8)))) [0..<274])
          = length [0..<274] * 255"
    by (rule sum_list_const) (rule full)
  then show ?thesis
    unfolding fusecsum_sum_list split using last by simp
qed

lemma fmt_04x_69873: "fmt_04x 69873 = ''110f1''"
  by (simp add: fmt_04x_def zero_pad4_def hex_nat.simps hex_digit_def)

lemma fmt_04x_4337: "fmt_04x (69873 mod 2 ^ 16) = ''10f1''"
  by (simp add: fmt_04x_def zero_pad4_def hex_nat.simps hex_digit_def)

text \<open>
  Claim C9 at the fuse map whose 2194 fuses are all \<^verbatim>\<open>'1'\<close>: the sum of the 275 fuse
  values is 69873, and the field written after \<^verbatim>\<open>*C\<close> is the five digits \<^verbatim>\<open>110f1\<close>,
  not the four digits \<^verbatim>\<open>10f1\<close> of the sum modulo \<open>2 ^ 16\<close>.
\<close>

theorem get_file_fuse_checksum_overflow:
  "fusecsum (replicate 2194 True) = 69873
   \<and> fmt_04x (fusecsum (replicate 2194 True) mod 2 ^ 16) = ''10f1''
   \<and> (\<exists>tx. get_file (replicate 2194 True) =
         get_file_fields (replicate 2194 True) @ ''*C110f1'' @ crlf @ ''*'' @ crlf @ [CHR 0x03] @ tx)"
proof -
  have "get_file (replicate 2194 True) =
         get_file_fields (replicate 2194 True) @ ''*C110f1'' @ crlf @ ''*'' @ crlf @ [CHR 0x03]
         @ fmt_04x (byte_sum (get_file_fields (replicate 2194 True) @ ''*C110f1'' @ crlf @ ''*''
              @ crlf @ [CHR 0x03]) AND 0xffff)"
    by (simp add: get_file_def Let_def fusecsum_all_ones fmt_04x_69873)
  then show ?thesis
    using fusecsum_all_ones fmt_04x_4337 by (simp only: ) blast
qed

section \<open>simplegalasm: PIN statements\<close>

lemma tok_at_Cons0 [simp]: "tok_at (x # xs) 0 = Inr x"
  by (simp add: tok_at_def)

lemma read_literal_no_dup:
  "read_literal ts \<noteq> Inl (DuplicatePinName a l)"
  by (induction ts rule: read_literal.induct) auto

lemma product_loop_no_dup:
  "product_loop ts cur sops \<noteq> Inl (DuplicatePinName a l)"
proof (induction ts cur sops rule: product_loop.induct)
  case (1 ts cur_product sops)
  show ?case
  proof (cases "read_literal ts")
    case (Inl e)
    with read_literal_no_dup [of ts a l] show ?thesis
      by (subst product_loop.simps) auto
  next
    case (Inr p)
    obtain lit ts1 where p: "p = (lit, ts1)" by (cases p)
    show ?thesis
    proof (cases ts1)
      case Nil
      with Inr p show ?thesis by (subst product_loop.simps) simp
    next
      case (Cons tk ts2)
      obtain l1 t where tk: "tk = (l1, t)" by (cases tk)
      have rl: "read_literal ts = Inr (lit, ts1)" using Inr p by simp
      have c: "ts1 = (l1, t) # ts2" using Cons tk by simp
      show ?thesis
      proof (cases t)
        case TokenAnd
        with "1.IH"(2) [OF rl refl c refl TokenAnd] rl c show ?thesis
          by (subst product_loop.simps) simp
      next
        case TokenOr
        with "1.IH"(1) [OF rl refl c refl TokenOr] rl c show ?thesis
          by (subst product_loop.simps) simp
      qed (use rl c in \<open>subst product_loop.simps, simp\<close>)+
    qed
  qed
qed

lemma get_equation_no_dup:
  "get_equation ts \<noteq> Inl (DuplicatePinName a l)"
proof (induction ts rule: get_equation.induct)
  case (2 l n ts)
  then show ?case by (auto split: list.splits toktype.splits)
qed (use product_loop_no_dup in \<open>auto split: sum.splits\<close>)

lemma pin_statement_cases:
  assumes "str_keys st"
  shows "(\<exists>e. pin_statement st l0 ts = Inl e \<and> (\<forall>a l. e \<noteq> DuplicatePinName a l))
       \<or> (\<exists>number name. pin_statement st l0 ts = Inr (declare_pin number name st, drop 5 ts)
             \<and> number \<notin> dom (pinname_by_pinnumber st)
             \<and> 4 < length ts
             \<and> snd (ts ! 1) = TokenNumber number \<and> snd (ts ! 2) = TokenEquals
             \<and> snd (ts ! 3) = TokenIdentifier name \<and> snd (ts ! 4) = TokenEndCmd)"
  using assms unfolding pin_statement_def tok_at_def str_keys_def declare_pin_def
  by (auto split: sum.splits toktype.splits prod.splits simp: domIff)

lemma pin_decls_append:
  "\<forall>tk \<in> set c. snd tk \<noteq> TokenKeywordPin \<Longrightarrow> pin_decls (c @ r) = pin_decls r"
  by (induction c) (simp_all add: pin_decl_at_def)

lemma read_literal_consumed:
  "read_literal ts = Inr (lit, ts1) \<Longrightarrow>
     \<exists>c. ts = c @ ts1 \<and> (\<forall>tk \<in> set c. snd tk \<noteq> TokenKeywordPin)"
proof (induction ts rule: read_literal.induct)
  case (3 l l1 name ts)
  then have "(l, TokenNot) # (l1, TokenIdentifier name) # ts = [(l, TokenNot), (l1, TokenIdentifier name)] @ ts1"
    by simp
  then show ?case by (intro exI [of _ "[(l, TokenNot), (l1, TokenIdentifier name)]"]) simp
next
  case (5 l name ts)
  then have "(l, TokenIdentifier name) # ts = [(l, TokenIdentifier name)] @ ts1" by simp
  then show ?case by (intro exI [of _ "[(l, TokenIdentifier name)]"]) simp
qed simp_all

lemma product_loop_consumed:
  "product_loop ts cur sops = Inr (rest, r) \<Longrightarrow>
     (\<exists>c. ts = c @ rest \<and> (\<forall>tk \<in> set c. snd tk \<noteq> TokenKeywordPin))
     \<and> (\<exists>l rest'. rest = (l, TokenEndCmd) # rest') \<and> r \<noteq> []"
proof (induction ts cur sops rule: product_loop.induct)
  case (1 ts cur_product sops)
  from "1.prems" obtain lit ts1 where rl: "read_literal ts = Inr (lit, ts1)"
    by (subst (asm) product_loop.simps) (auto split: sum.splits)
  from "1.prems" rl obtain l t ts2 where ts1: "ts1 = (l, t) # ts2"
    by (subst (asm) product_loop.simps) (auto split: list.splits)
  from read_literal_consumed [OF rl] obtain c
    where c: "ts = c @ ts1" "\<forall>tk \<in> set c. snd tk \<noteq> TokenKeywordPin" by blast
  show ?case
  proof (cases t)
    case TokenAnd
    with "1.prems" rl ts1 have "product_loop ts2 (insert lit cur_product) sops = Inr (rest, r)"
      by (subst (asm) product_loop.simps) simp
    from "1.IH"(2) [OF rl refl ts1 refl TokenAnd this] obtain c2
      where c2: "ts2 = c2 @ rest" "\<forall>tk \<in> set c2. snd tk \<noteq> TokenKeywordPin"
        and e: "\<exists>l rest'. rest = (l, TokenEndCmd) # rest'" "r \<noteq> []" by blast
    have "ts = (c @ (l, t) # c2) @ rest" using c ts1 c2 by simp
    moreover have "\<forall>tk \<in> set (c @ (l, t) # c2). snd tk \<noteq> TokenKeywordPin"
      using c c2 TokenAnd by auto
    ultimately show ?thesis using e by blast
  next
    case TokenOr
    with "1.prems" rl ts1 have "product_loop ts2 {} (sops @ [insert lit cur_product]) = Inr (rest, r)"
      by (subst (asm) product_loop.simps) simp
    from "1.IH"(1) [OF rl refl ts1 refl TokenOr this] obtain c2
      where c2: "ts2 = c2 @ rest" "\<forall>tk \<in> set c2. snd tk \<noteq> TokenKeywordPin"
        and e: "\<exists>l rest'. rest = (l, TokenEndCmd) # rest'" "r \<noteq> []" by blast
    have "ts = (c @ (l, t) # c2) @ rest" using c ts1 c2 by simp
    moreover have "\<forall>tk \<in> set (c @ (l, t) # c2). snd tk \<noteq> TokenKeywordPin"
      using c c2 TokenOr by auto
    ultimately show ?thesis using e by blast
  next
    case TokenEndCmd
    with "1.prems" rl ts1 have "rest = ts1" "r = sops @ [insert lit cur_product]"
      by (subst (asm) product_loop.simps, simp)+
    with c ts1 TokenEndCmd show ?thesis by auto
  qed (use "1.prems" rl ts1 in \<open>subst (asm) product_loop.simps, simp\<close>)+
qed

lemma get_equation_consumed:
  "get_equation ts = Inr (rest, sop) \<Longrightarrow>
     (\<exists>c. ts = c @ rest \<and> (\<forall>tk \<in> set c. snd tk \<noteq> TokenKeywordPin))
     \<and> (\<exists>l rest'. rest = (l, TokenEndCmd) # rest')
     \<and> sop \<noteq> SopList []"
proof (induction ts rule: get_equation.induct)
  case 1
  then show ?case by simp
next
  case (2 l n ts)
  then have r: "rest = ts" and e: "\<exists>l rest'. ts = (l, TokenEndCmd) # rest'" and s: "sop = SopInt n"
    by (auto split: if_splits list.splits toktype.splits)
  have "(l, TokenNumber n) # ts = [(l, TokenNumber n)] @ rest" using r by simp
  then have "\<exists>c. (l, TokenNumber n) # ts = c @ rest \<and> (\<forall>tk \<in> set c. snd tk \<noteq> TokenKeywordPin)"
    by (intro exI [of _ "[(l, TokenNumber n)]"]) simp
  with r e s show ?case by simp
qed (auto split: sum.splits dest!: product_loop_consumed)

lemma store_equation_step:
  assumes "store_equation st eqneg name ts = Inr (st', rest)"
  shows "same_pins st st' \<and> (\<exists>c. ts = c @ rest \<and> (\<forall>tk \<in> set c. snd tk \<noteq> TokenKeywordPin))"
proof -
  from assms obtain r sop where g: "get_equation ts = Inr (r, sop)" and rest: "rest = drop 1 r"
    and st': "st' = st\<lparr>equations := (equations st)(name \<mapsto> \<lparr>negated = eqneg, sum_of_products = sop\<rparr>)\<rparr>"
    by (auto simp: store_equation_def split: sum.splits)
  from get_equation_consumed [OF g] obtain c l rest' where
    c: "ts = c @ r" "\<forall>tk \<in> set c. snd tk \<noteq> TokenKeywordPin" and r: "r = (l, TokenEndCmd) # rest'"
    by blast
  have "ts = (c @ [(l, TokenEndCmd)]) @ rest" using c r rest by simp
  moreover have "\<forall>tk \<in> set (c @ [(l, TokenEndCmd)]). snd tk \<noteq> TokenKeywordPin" using c by simp
  ultimately show ?thesis using st' by (auto simp: same_pins_def)
qed

lemma store_oe_equation_step:
  assumes "store_oe_equation st eqneg name ts = Inr (st', rest)"
  shows "same_pins st st' \<and> (\<exists>c. ts = c @ rest \<and> (\<forall>tk \<in> set c. snd tk \<noteq> TokenKeywordPin))"
proof -
  from assms obtain r sop where g: "get_equation ts = Inr (r, sop)" and rest: "rest = drop 1 r"
    and st': "st' = st\<lparr>oe_equations := (oe_equations st)(name \<mapsto> \<lparr>negated = eqneg, sum_of_products = sop\<rparr>)\<rparr>"
    by (auto simp: store_oe_equation_def split: sum.splits)
  from get_equation_consumed [OF g] obtain c l rest' where
    c: "ts = c @ r" "\<forall>tk \<in> set c. snd tk \<noteq> TokenKeywordPin" and r: "r = (l, TokenEndCmd) # rest'"
    by blast
  have "ts = (c @ [(l, TokenEndCmd)]) @ rest" using c r rest by simp
  moreover have "\<forall>tk \<in> set (c @ [(l, TokenEndCmd)]). snd tk \<noteq> TokenKeywordPin" using c by simp
  ultimately show ?thesis using st' by (auto simp: same_pins_def)
qed

lemma store_equation_no_dup:
  "store_equation st eqneg name ts \<noteq> Inl (DuplicatePinName a l)"
  using get_equation_no_dup [of ts a l] by (auto simp: store_equation_def split: sum.splits)

lemma store_oe_equation_no_dup:
  "store_oe_equation st eqneg name ts \<noteq> Inl (DuplicatePinName a l)"
  using get_equation_no_dup [of ts a l] by (auto simp: store_oe_equation_def split: sum.splits)

lemma prefix_step:
  assumes "\<exists>c. drop k ts = c @ rest \<and> (\<forall>tk \<in> set c. snd tk \<noteq> TokenKeywordPin)"
    and "\<forall>tk \<in> set (take k ts). snd tk \<noteq> TokenKeywordPin"
  shows "\<exists>c. ts = c @ rest \<and> (\<forall>tk \<in> set c. snd tk \<noteq> TokenKeywordPin)"
proof -
  from assms(1) obtain c where c: "drop k ts = c @ rest" "\<forall>tk \<in> set c. snd tk \<noteq> TokenKeywordPin"
    by blast
  have "ts = (take k ts @ c) @ rest" using c(1) by (metis append_assoc append_take_drop_id)
  moreover have "\<forall>tk \<in> set (take k ts @ c). snd tk \<noteq> TokenKeywordPin" using c(2) assms(2) by auto
  ultimately show ?thesis by blast
qed

lemma five_tokens:
  assumes "4 < length ts"
  shows "ts = ts ! 0 # ts ! 1 # ts ! 2 # ts ! 3 # ts ! 4 # drop 5 ts"
proof -
  from assms obtain a t1 where 1: "ts = a # t1" "3 < length t1" by (cases ts) auto
  then obtain b t2 where 2: "t1 = b # t2" "2 < length t2" by (cases t1) auto
  then obtain c t3 where 3: "t2 = c # t3" "1 < length t3" by (cases t2) auto
  then obtain d t4 where 4: "t3 = d # t4" "0 < length t4" by (cases t3) auto
  then obtain e t5 where 5: "t4 = e # t5" by (cases t4) auto
  have "ts = a # b # c # d # e # t5" using 1 2 3 4 5 by simp
  then show ?thesis by simp
qed

lemma pin_statement_decl:
  assumes "4 < length ts" and "snd (ts ! 0) = TokenKeywordPin"
    and "snd (ts ! 1) = TokenNumber number" and "snd (ts ! 2) = TokenEquals"
    and "snd (ts ! 3) = TokenIdentifier name" and "snd (ts ! 4) = TokenEndCmd"
  shows "pin_decls ts = (number, name) # pin_decls (drop 5 ts)"
proof -
  from five_tokens [OF assms(1)] obtain a b c d e
    where ts: "ts = a # b # c # d # e # drop 5 ts" and
      "a = ts ! 0" "b = ts ! 1" "c = ts ! 2" "d = ts ! 3" "e = ts ! 4"
    by blast
  with assms have k: "snd a = TokenKeywordPin" "snd b = TokenNumber number" "snd c = TokenEquals"
    "snd d = TokenIdentifier name" "snd e = TokenEndCmd" by simp_all
  have "pin_decls (a # b # c # d # e # drop 5 ts) = (number, name) # pin_decls (drop 5 ts)"
    using k by (simp add: pin_decl_at_def)
  with ts show ?thesis by simp
qed

lemma pin_statement_no_dup:
  "str_keys st \<Longrightarrow> pin_statement st l0 ts \<noteq> Inl (DuplicatePinName a l)"
  using pin_statement_cases [of st l0 ts] by auto

lemma statement_body_no_dup:
  assumes "str_keys st"
  shows "statement_body st eqneg ts \<noteq> Inl (DuplicatePinName a l)"
  unfolding statement_body_def tok_at_def
  by (simp add: pin_statement_no_dup [OF assms] store_equation_no_dup store_oe_equation_no_dup
        split: list.splits toktype.splits prod.splits)

lemma statement_no_dup:
  assumes "str_keys st"
  shows "statement st ts \<noteq> Inl (DuplicatePinName a l)"
  unfolding statement_def tok_at_def
  by (simp add: statement_body_no_dup [OF assms] split: list.splits prod.splits)

lemma take2_nth: "1 < length ts \<Longrightarrow> take 2 ts = [ts ! 0, ts ! 1]"
  by (cases ts; cases "tl ts") auto

lemma take4_nth: "3 < length ts \<Longrightarrow> take 4 ts = [ts ! 0, ts ! 1, ts ! 2, ts ! 3]"
proof -
  assume "3 < length ts"
  then obtain a t1 where 1: "ts = a # t1" "2 < length t1" by (cases ts) auto
  then obtain b t2 where 2: "t1 = b # t2" "1 < length t2" by (cases t1) auto
  then obtain c t3 where 3: "t2 = c # t3" "0 < length t3" by (cases t2) auto
  then obtain d t4 where 4: "t3 = d # t4" by (cases t3) auto
  show ?thesis using 1 2 3 4 by simp
qed

lemma str_keys_declare_pin: "str_keys st \<Longrightarrow> str_keys (declare_pin number name st)"
  by (simp add: str_keys_def declare_pin_def)

lemma str_keys_same_pins: "str_keys st \<Longrightarrow> same_pins st st' \<Longrightarrow> str_keys st'"
  by (simp add: str_keys_def same_pins_def)

lemma statement_body_step:
  assumes sk: "str_keys st" and r: "statement_body st eqneg ts = Inr (st', rest)"
  shows "str_keys st' \<and> pin_step st ts st' rest"
proof (cases ts)
  case Nil
  with r show ?thesis by (simp add: statement_body_def)
next
  case (Cons tk ts')
  obtain l t where tk: "tk = (l, t)" by (cases tk)
  show ?thesis
  proof (cases t)
    case TokenKeywordPin
    with r Cons tk have p: "pin_statement st l ts = Inr (st', rest)"
      by (simp add: statement_body_def)
    from pin_statement_cases [OF sk, of l ts] p obtain number name where
      d: "st' = declare_pin number name st" "rest = drop 5 ts"
        "number \<notin> dom (pinname_by_pinnumber st)" "4 < length ts"
        "snd (ts ! 1) = TokenNumber number" "snd (ts ! 2) = TokenEquals"
        "snd (ts ! 3) = TokenIdentifier name" "snd (ts ! 4) = TokenEndCmd"
      by auto
    have "snd (ts ! 0) = TokenKeywordPin" using Cons tk TokenKeywordPin by simp
    from pin_statement_decl [OF d(4) this d(5) d(6) d(7) d(8)] d(2)
    have "pin_decls ts = (number, name) # pin_decls rest" by simp
    with d(1) d(3) have "pin_step st ts st' rest"
      unfolding pin_step_def same_pins_def by blast
    with str_keys_declare_pin [OF sk] d(1) show ?thesis by simp
  next
    case (TokenIdentifier name)
    from r Cons tk TokenIdentifier
    have "(store_equation st eqneg name (drop 2 ts) = Inr (st', rest)
             \<and> 1 < length ts \<and> snd (ts ! 1) = TokenEquals)
          \<or> (store_oe_equation st eqneg name (drop 4 ts) = Inr (st', rest)
             \<and> 3 < length ts \<and> snd (ts ! 1) = TokenDot \<and> is_identifier (snd (ts ! 2))
             \<and> snd (ts ! 3) = TokenEquals)"
      unfolding statement_body_def tok_at_def is_identifier_def
      by (simp split: sum.splits toktype.splits if_splits prod.splits)
    then show ?thesis
    proof
      assume a: "store_equation st eqneg name (drop 2 ts) = Inr (st', rest)
             \<and> 1 < length ts \<and> snd (ts ! 1) = TokenEquals"
      have h0: "snd (ts ! 0) = TokenIdentifier name" using Cons tk TokenIdentifier by simp
      have "\<forall>tk \<in> set [ts ! 0, ts ! 1]. snd tk \<noteq> TokenKeywordPin" using h0 a by simp
      moreover have "take 2 ts = [ts ! 0, ts ! 1]" using a by (simp add: take2_nth)
      ultimately have "\<forall>tk \<in> set (take 2 ts). snd tk \<noteq> TokenKeywordPin" by simp
      with store_equation_step [of st eqneg name "drop 2 ts" st' rest] a
      have "same_pins st st'" and "\<exists>c. ts = c @ rest \<and> (\<forall>tk \<in> set c. snd tk \<noteq> TokenKeywordPin)"
        by (auto intro: prefix_step)
      then show ?thesis using str_keys_same_pins [OF sk] by (auto simp: pin_step_def)
    next
      assume a: "store_oe_equation st eqneg name (drop 4 ts) = Inr (st', rest)
             \<and> 3 < length ts \<and> snd (ts ! 1) = TokenDot \<and> is_identifier (snd (ts ! 2))
             \<and> snd (ts ! 3) = TokenEquals"
      have h0: "snd (ts ! 0) = TokenIdentifier name" using Cons tk TokenIdentifier by simp
      have "snd (ts ! 2) \<noteq> TokenKeywordPin" using a by (auto simp: is_identifier_def)
      then have "\<forall>tk \<in> set [ts ! 0, ts ! 1, ts ! 2, ts ! 3]. snd tk \<noteq> TokenKeywordPin"
        using h0 a by simp
      moreover have "take 4 ts = [ts ! 0, ts ! 1, ts ! 2, ts ! 3]" using a by (simp add: take4_nth)
      ultimately have "\<forall>tk \<in> set (take 4 ts). snd tk \<noteq> TokenKeywordPin" by simp
      with store_oe_equation_step [of st eqneg name "drop 4 ts" st' rest] a
      have "same_pins st st'" and "\<exists>c. ts = c @ rest \<and> (\<forall>tk \<in> set c. snd tk \<noteq> TokenKeywordPin)"
        by (auto intro: prefix_step)
      then show ?thesis using str_keys_same_pins [OF sk] by (auto simp: pin_step_def)
    qed
  next
    case TokenEndCmd
    with r Cons tk have "st' = st" "rest = ts'" by (simp_all add: statement_body_def)
    moreover have "ts = [tk] @ ts'" using Cons by simp
    ultimately have "pin_step st ts st' rest"
      unfolding pin_step_def same_pins_def using tk TokenEndCmd
      by (intro disjI1 conjI exI [of _ "[tk]"]) simp_all
    with sk \<open>st' = st\<close> show ?thesis by simp
  qed (use r Cons tk in \<open>simp_all add: statement_body_def\<close>)
qed

lemma statement_step:
  assumes sk: "str_keys st" and r: "statement st ts = Inr (st', rest)"
  shows "str_keys st' \<and> pin_step st ts st' rest"
proof (cases ts)
  case Nil
  with r show ?thesis by (simp add: statement_def)
next
  case (Cons tk ts')
  obtain l t where tk: "tk = (l, t)" by (cases tk)
  from r Cons tk have "statement_body st False ts = Inr (st', rest)
      \<or> (t = TokenNot \<and> statement_body st True ts' = Inr (st', rest))"
    unfolding statement_def tok_at_def
    by (simp split: sum.splits if_splits prod.splits)
  then show ?thesis
  proof
    assume "statement_body st False ts = Inr (st', rest)"
    then show ?thesis by (rule statement_body_step [OF sk])
  next
    assume a: "t = TokenNot \<and> statement_body st True ts' = Inr (st', rest)"
    with statement_body_step [OF sk, of True ts' st' rest]
    have s: "str_keys st'" and p: "pin_step st ts' st' rest" by simp_all
    have d: "pin_decls ts = pin_decls ts'" using Cons tk a by (simp add: pin_decl_at_def)
    from p have "pin_step st ts st' rest"
      unfolding pin_step_def
    proof (elim disjE conjE exE)
      fix c assume "same_pins st st'" "ts' = c @ rest" "\<forall>tk \<in> set c. snd tk \<noteq> TokenKeywordPin"
      then have "same_pins st st' \<and> ts = (tk # c) @ rest \<and> (\<forall>x \<in> set (tk # c). snd x \<noteq> TokenKeywordPin)"
        using Cons tk a by simp
      then show "(same_pins st st' \<and> (\<exists>c. ts = c @ rest \<and> (\<forall>tk \<in> set c. snd tk \<noteq> TokenKeywordPin)))
        \<or> (\<exists>number name. number \<notin> dom (pinname_by_pinnumber st)
            \<and> same_pins (declare_pin number name st) st'
            \<and> pin_decls ts = (number, name) # pin_decls rest)" by blast
    next
      fix number name
      assume "number \<notin> dom (pinname_by_pinnumber st)" "same_pins (declare_pin number name st) st'"
        "pin_decls ts' = (number, name) # pin_decls rest"
      then show "(same_pins st st' \<and> (\<exists>c. ts = c @ rest \<and> (\<forall>tk \<in> set c. snd tk \<noteq> TokenKeywordPin)))
        \<or> (\<exists>number name. number \<notin> dom (pinname_by_pinnumber st)
            \<and> same_pins (declare_pin number name st) st'
            \<and> pin_decls ts = (number, name) # pin_decls rest)" using d by auto
    qed
    with s show ?thesis by simp
  qed
qed

lemma parse_loop_no_dup:
  "str_keys st \<Longrightarrow> parse_loop st ts \<noteq> Inl (DuplicatePinName a l)"
proof (induction st ts rule: parse_loop.induct)
  case (1 st ts)
  show ?case
  proof (cases "ts = []")
    case True
    then show ?thesis by (subst parse_loop.simps) simp
  next
    case False
    show ?thesis
    proof (cases "statement st ts")
      case (Inl e)
      with statement_no_dup [OF "1.prems", of ts a l] False show ?thesis
        by (subst parse_loop.simps) auto
    next
      case (Inr p)
      obtain st1 rest where p: "p = (st1, rest)" by (cases p)
      from statement_step [OF "1.prems", of ts st1 rest] Inr p have "str_keys st1" by simp
      from "1.IH" [OF False _ _ this, of p] Inr p have "parse_loop st1 rest \<noteq> Inl (DuplicatePinName a l)"
        by simp
      with Inr p False show ?thesis by (subst parse_loop.simps) simp
    qed
  qed
qed

lemma fold_names_notin:
  "k \<notin> fst ` set ds \<Longrightarrow> names_after ds m k = m k"
  by (induction ds arbitrary: m) auto

lemma parse_loop_pins:
  "str_keys st \<Longrightarrow> parse_loop st ts = Inr st' \<Longrightarrow>
     pinname_by_pinnumber st' = names_after (pin_decls ts) (pinname_by_pinnumber st)
     \<and> pinnumber_by_pinname st' =
         numbers_after (pin_decls ts) (pinnumber_by_pinname st)
     \<and> distinct (map fst (pin_decls ts))
     \<and> fst ` set (pin_decls ts) \<inter> dom (pinname_by_pinnumber st) = {}
     \<and> str_keys st'"
proof (induction st ts arbitrary: st' rule: parse_loop.induct)
  case (1 st ts)
  show ?case
  proof (cases "ts = []")
    case True
    with "1.prems" show ?thesis by (subst (asm) parse_loop.simps) simp
  next
    case False
    from "1.prems"(2) False obtain st1 rest where
      s: "statement st ts = Inr (st1, rest)" and pl: "parse_loop st1 rest = Inr st'"
      by (subst (asm) parse_loop.simps) (auto split: sum.splits)
    from statement_step [OF "1.prems"(1) s] have sk1: "str_keys st1" and ps: "pin_step st ts st1 rest"
      by simp_all
    from "1.IH" [OF False s refl sk1 pl]
    have ih: "pinname_by_pinnumber st' =
        names_after (pin_decls rest) (pinname_by_pinnumber st1)"
      "pinnumber_by_pinname st' =
         numbers_after (pin_decls rest) (pinnumber_by_pinname st1)"
      "distinct (map fst (pin_decls rest))"
      "fst ` set (pin_decls rest) \<inter> dom (pinname_by_pinnumber st1) = {}"
      "str_keys st'" by simp_all
    from ps show ?thesis
      unfolding pin_step_def
    proof (elim disjE conjE exE)
      fix c assume sp: "same_pins st st1" and c: "ts = c @ rest" "\<forall>tk \<in> set c. snd tk \<noteq> TokenKeywordPin"
      have "pin_decls ts = pin_decls rest" using c pin_decls_append by simp
      with ih sp show ?thesis by (simp add: same_pins_def)
    next
      fix number name
      assume n: "number \<notin> dom (pinname_by_pinnumber st)"
        and sp: "same_pins (declare_pin number name st) st1"
        and d: "pin_decls ts = (number, name) # pin_decls rest"
      have n1: "pinname_by_pinnumber st1 = (pinname_by_pinnumber st)(number \<mapsto> name)"
        and m1: "pinnumber_by_pinname st1 = (pinnumber_by_pinname st)(KStr name \<mapsto> number)"
        using sp by (simp_all add: same_pins_def declare_pin_def)
      have notin: "number \<notin> fst ` set (pin_decls rest)" using ih(4) n1 by auto
      have "fst ` set (pin_decls ts) \<inter> dom (pinname_by_pinnumber st) = {}"
        using ih(4) n1 n d by auto
      with ih n1 m1 d notin show ?thesis by simp
    qed
  qed
qed

lemma fold_names_distinct:
  "distinct (map fst ds) \<Longrightarrow> (number, name) \<in> set ds \<Longrightarrow>
     names_after ds m number = Some name"
proof (induction ds arbitrary: m)
  case Nil
  then show ?case by simp
next
  case (Cons d ds)
  show ?case
  proof (cases "d = (number, name)")
    case True
    with Cons.prems have "number \<notin> fst ` set ds" by auto
    then have "names_after ds (m(number \<mapsto> name)) number
                 = (m(number \<mapsto> name)) number"
      by (rule fold_names_notin)
    with True show ?thesis by simp
  next
    case False
    with Cons show ?thesis by auto
  qed
qed

lemma fold_numbers_notin:
  "name \<notin> snd ` set ds \<Longrightarrow> numbers_after ds m (KStr name) = m (KStr name)"
  by (induction ds arbitrary: m) auto

lemma numbers_after_append:
  "numbers_after (ds1 @ ds2) m = numbers_after ds2 (numbers_after ds1 m)"
  by (induction ds1 arbitrary: m) simp_all

lemma fold_numbers_last:
  "name \<notin> snd ` set ds2 \<Longrightarrow>
     numbers_after (ds1 @ (number, name) # ds2) m (KStr name) = Some number"
  by (simp add: fold_numbers_notin numbers_after_append)

section \<open>simplegalasm: the errors of the fuse-map phase\<close>

lemma fuse_inputs_declared:
  assumes "\<forall>x \<in> set xs. snd x \<in> dom names"
  shows "\<exists>fm'. fuse_inputs names base xs product fm
            = Inr (product - pin_literals names (map snd xs), fm')"
  using assms
proof (induction xs arbitrary: product fm)
  case Nil
  then show ?case by (simp add: pin_literals_def)
next
  case (Cons x xs)
  obtain i n where x: "x = (i, n)" by (cases x)
  from Cons.prems x obtain a where a: "names n = Some a" by auto
  define p2 where "p2 = product - {a, CHR ''!'' # a}"
  have p2: "(if CHR ''!'' # a \<in> (if a \<in> product then product - {a} else product)
             then (if a \<in> product then product - {a} else product) - {CHR ''!'' # a}
             else (if a \<in> product then product - {a} else product)) = p2"
    unfolding p2_def by auto
  from Cons.prems have "\<forall>x \<in> set xs. snd x \<in> dom names" by simp
  from Cons.IH [OF this] obtain fm' where
    "fuse_inputs names base xs p2
       (if CHR ''!'' # a \<in> (if a \<in> product then product - {a} else product)
        then (if a \<in> product then fm else fm[base + 2 * i := True])
        else (if a \<in> product then fm else fm[base + 2 * i := True])[base + 2 * i + 1 := True])
     = Inr (p2 - pin_literals names (map snd xs), fm')" by blast
  moreover have "p2 - pin_literals names (map snd xs) = product - pin_literals names (map snd (x # xs))"
    unfolding p2_def pin_literals_def using a x by auto
  ultimately show ?case using a x p2 by (simp add: Let_def)
qed

lemma map_snd_enumerate: "map snd (enumerate_list xs) = xs"
  by (simp add: enumerate_list_def)

lemma fuse_inputs_array:
  assumes "all_declared st"
  shows "\<exists>fm'. fuse_inputs (pinname_by_pinnumber st) base (enumerate_list input_pins) product fm
            = Inr (product - array_literals st, fm')"
proof -
  have "\<forall>x \<in> set (enumerate_list input_pins). snd x \<in> dom (pinname_by_pinnumber st)"
  proof
    fix x assume "x \<in> set (enumerate_list input_pins)"
    then have "snd x \<in> set (map snd (enumerate_list input_pins))" by force
    then have "snd x \<in> set input_pins" by (simp only: map_snd_enumerate)
    with assms show "snd x \<in> dom (pinname_by_pinnumber st)" by (simp add: all_declared_def)
  qed
  from fuse_inputs_declared [OF this] show ?thesis
    by (simp add: array_literals_def map_snd_enumerate)
qed

lemma fuse_products_cases:
  assumes "all_declared st"
  shows "k \<le> 7 \<Longrightarrow>
         (if k + length ps \<le> 7 \<and> (\<forall>p \<in> set ps. p \<subseteq> array_literals st)
          then \<exists>fm'. fuse_products (pinname_by_pinnumber st) out k ps fm = Inr fm'
          else \<exists>e. fuse_products (pinname_by_pinnumber st) out k ps fm = Inl e
                 \<and> unsupported_error e \<and> error_pin e = out)"
proof (induction ps arbitrary: k fm)
  case Nil
  then show ?case by simp
next
  case (Cons p ps)
  show ?case
  proof (cases "k > 6")
    case True
    then have eq: "fuse_products (pinname_by_pinnumber st) out k (p # ps) fm = Inl (MoreThan7Products out)"
      by simp
    show ?thesis unfolding eq using True by simp
  next
    case False
    from fuse_inputs_array [OF assms, of "32 * k" p fm] obtain fm1 where
      fi: "fuse_inputs (pinname_by_pinnumber st) (32 * k) (enumerate_list input_pins) p fm
             = Inr (p - array_literals st, fm1)" by blast
    show ?thesis
    proof (cases "p \<subseteq> array_literals st")
      case True
      then have e: "p - array_literals st = {}" by auto
      have eq: "fuse_products (pinname_by_pinnumber st) out k (p # ps) fm
              = fuse_products (pinname_by_pinnumber st) out (k + 1) ps fm1"
        using False fi e by simp
      have k1: "k + 1 \<le> 7" using False by simp
      have len: "k + length (p # ps) = k + 1 + length ps" by simp
      have sub: "(\<forall>q \<in> set (p # ps). q \<subseteq> array_literals st) = (\<forall>q \<in> set ps. q \<subseteq> array_literals st)"
        using True by simp
      show ?thesis unfolding eq len sub by (rule Cons.IH [OF k1])
    next
      case nsub: False
      then have e: "p - array_literals st \<noteq> {}" by auto
      have eq: "fuse_products (pinname_by_pinnumber st) out k (p # ps) fm
              = Inl (UndefinedPins out (p - array_literals st))"
        using False fi e by simp
      show ?thesis unfolding eq using nsub by simp
    qed
  qed
qed

lemma level_fuses_cases:
  assumes "all_declared st"
  shows "case equations st out of
           None \<Rightarrow> \<exists>r. level_fuses st out = Inr r
         | Some eq \<Rightarrow>
             if level_unsupported (array_literals st) eq
             then \<exists>e. level_fuses st out = Inl e \<and> unsupported_error e \<and> error_pin e = out
             else \<exists>r. level_fuses st out = Inr r"
proof (cases "equations st out")
  case None
  then show ?thesis by (simp add: level_fuses_def)
next
  case (Some eq)
  show ?thesis
  proof (cases "negated eq")
    case False
    with Some show ?thesis by (simp add: level_fuses_def level_unsupported_def Let_def)
  next
    case True
    show ?thesis
    proof (cases "sum_of_products eq")
      case (SopInt n)
      with Some True show ?thesis by (simp add: level_fuses_def level_unsupported_def Let_def)
    next
      case (SopList ps)
      have u: "level_unsupported (array_literals st) eq
                 = (\<not> (0 + length ps \<le> 7 \<and> (\<forall>p \<in> set ps. p \<subseteq> array_literals st)))"
        using True SopList by (auto simp: level_unsupported_def)
      from fuse_products_cases [OF assms, of 0 ps out "replicate (7 * 32) False"]
      show ?thesis
        using Some True SopList
        by (auto simp: level_fuses_def Let_def u split: if_splits)
    qed
  qed
qed

lemma oe_fuses_cases:
  assumes "all_declared st" and "sops_nonempty st"
  shows "case oe_equations st out of
           None \<Rightarrow> \<exists>r. oe_fuses st out fm = Inr r
         | Some eq \<Rightarrow>
             if oe_unsupported (array_literals st) eq
             then \<exists>e. oe_fuses st out fm = Inl e \<and> unsupported_error e \<and> error_pin e = out
             else \<exists>r. oe_fuses st out fm = Inr r"
proof (cases "oe_equations st out")
  case None
  then show ?thesis by (simp add: oe_fuses_def)
next
  case (Some eq)
  show ?thesis
  proof (cases "negated eq")
    case True
    with Some show ?thesis by (simp add: oe_fuses_def oe_unsupported_def)
  next
    case False
    show ?thesis
    proof (cases "sum_of_products eq")
      case (SopInt n)
      with Some False show ?thesis by (simp add: oe_fuses_def oe_unsupported_def)
    next
      case (SopList ps)
      with assms(2) Some have "ps \<noteq> []" by (auto simp: sops_nonempty_def)
      then obtain p ps' where ps: "ps = p # ps'" by (cases ps) auto
      show ?thesis
      proof (cases "ps' = []")
        case False
        then have "length ps > 1" using ps by (cases ps') auto
        with Some \<open>\<not> negated eq\<close> SopList show ?thesis
          by (simp add: oe_fuses_def oe_unsupported_def)
      next
        case True
        from fuse_inputs_array [OF assms(1), of 0 p fm] obtain fm1 where
          fi: "fuse_inputs (pinname_by_pinnumber st) 0 (enumerate_list input_pins) p fm
                 = Inr (p - array_literals st, fm1)" by blast
        have "(p - array_literals st \<noteq> {}) = (\<not> p \<subseteq> array_literals st)" by auto
        with Some \<open>\<not> negated eq\<close> SopList ps True fi show ?thesis
          by (simp add: oe_fuses_def oe_unsupported_def)
      qed
    qed
  qed
qed

lemma assemble_output_cases:
  assumes "all_declared st" and "sops_nonempty st" and "pinname_by_pinnumber st n = Some out"
  shows "if pin_unsupported st n
         then \<exists>e. assemble_output n st = Inl e \<and> unsupported_error e \<and> error_pin e = out
         else \<exists>st'. assemble_output n st = Inr st' \<and> same_program st st'"
proof (cases "level_fuses st out")
  case (Inl e)
  with level_fuses_cases [OF assms(1), of out]
  have "unsupported_error e \<and> error_pin e = out \<and> pin_unsupported st n"
    using assms(3) by (auto simp: pin_unsupported_def split: option.splits if_splits)
  with Inl assms(3) show ?thesis by (simp add: assemble_output_def)
next
  case (Inr r)
  obtain fm oe1 where r: "r = (fm, oe1)" by (cases r)
  from level_fuses_cases [OF assms(1), of out] Inr
  have lv: "case equations st out of None \<Rightarrow> True
            | Some eq \<Rightarrow> \<not> level_unsupported (array_literals st) eq"
    by (auto split: option.splits if_splits)
  show ?thesis
  proof (cases "oe_fuses st out oe1")
    case (Inl e)
    with oe_fuses_cases [OF assms(1,2), of out oe1]
    have "unsupported_error e \<and> error_pin e = out \<and> pin_unsupported st n"
      using assms(3) by (auto simp: pin_unsupported_def split: option.splits if_splits)
    with Inl Inr r assms(3) show ?thesis by (simp add: assemble_output_def)
  next
    case oe: (Inr oe2)
    from oe_fuses_cases [OF assms(1,2), of out oe1] oe
    have "case oe_equations st out of None \<Rightarrow> True
            | Some eq \<Rightarrow> \<not> oe_unsupported (array_literals st) eq"
      by (auto split: option.splits if_splits)
    with lv have "\<not> pin_unsupported st n"
      using assms(3) by (auto simp: pin_unsupported_def split: option.splits)
    with oe Inr r assms(3) show ?thesis
      by (simp add: assemble_output_def same_program_def same_pins_def)
  qed
qed

lemma same_program_props:
  assumes "same_program st st'"
  shows "all_declared st' = all_declared st" and "sops_nonempty st' = sops_nonempty st"
    and "pin_unsupported st' n = pin_unsupported st n"
    and "pinname_by_pinnumber st' = pinname_by_pinnumber st"
proof -
  from assms have e: "pinname_by_pinnumber st' = pinname_by_pinnumber st"
    "equations st' = equations st" "oe_equations st' = oe_equations st"
    by (simp_all add: same_program_def same_pins_def)
  show "all_declared st' = all_declared st" by (simp add: all_declared_def e)
  show "sops_nonempty st' = sops_nonempty st" by (simp add: sops_nonempty_def e)
  have "array_literals st' = array_literals st" by (simp add: array_literals_def e)
  then show "pin_unsupported st' n = pin_unsupported st n"
    by (simp add: pin_unsupported_def e split: option.splits)
  show "pinname_by_pinnumber st' = pinname_by_pinnumber st" by (rule e)
qed

lemma same_program_trans:
  "same_program st st1 \<Longrightarrow> same_program st1 st2 \<Longrightarrow> same_program st st2"
  by (simp add: same_program_def same_pins_def)

lemma assemble_outputs_cases:
  assumes "all_declared st" and "sops_nonempty st" and "set pins \<subseteq> dom (pinname_by_pinnumber st)"
  shows "if \<exists>n \<in> set pins. pin_unsupported st n
         then \<exists>e. assemble_outputs pins st = Inl e \<and> unsupported_error e
                \<and> (\<exists>n \<in> set pins. pin_unsupported st n
                       \<and> pinname_by_pinnumber st n = Some (error_pin e))
         else \<exists>st'. assemble_outputs pins st = Inr st' \<and> same_program st st'"
  using assms
proof (induction pins arbitrary: st)
  case Nil
  then show ?case by (simp add: same_program_def same_pins_def)
next
  case (Cons n pins)
  from Cons.prems(3) obtain out where out: "pinname_by_pinnumber st n = Some out" by auto
  show ?case
  proof (cases "pin_unsupported st n")
    case True
    with assemble_output_cases [OF Cons.prems(1,2) out] obtain e where
      "assemble_output n st = Inl e" "unsupported_error e" "error_pin e = out" by auto
    with True out show ?thesis by auto
  next
    case False
    with assemble_output_cases [OF Cons.prems(1,2) out] obtain st1 where
      s1: "assemble_output n st = Inr st1" "same_program st st1" by auto
    note sp = same_program_props [OF s1(2)]
    have "all_declared st1" "sops_nonempty st1" "set pins \<subseteq> dom (pinname_by_pinnumber st1)"
      using Cons.prems sp by simp_all
    from Cons.IH [OF this]
    have ih: "if \<exists>n \<in> set pins. pin_unsupported st n
         then \<exists>e. assemble_outputs pins st1 = Inl e \<and> unsupported_error e
                \<and> (\<exists>n \<in> set pins. pin_unsupported st n
                       \<and> pinname_by_pinnumber st n = Some (error_pin e))
         else \<exists>st'. assemble_outputs pins st1 = Inr st' \<and> same_program st1 st'"
      by (simp only: sp)
    have eq: "assemble_outputs (n # pins) st = assemble_outputs pins st1" using s1 by simp
    show ?thesis
    proof (cases "\<exists>n \<in> set pins. pin_unsupported st n")
      case True
      with ih show ?thesis unfolding eq by auto
    next
      case nu: False
      with ih obtain st' where "assemble_outputs pins st1 = Inr st'" "same_program st1 st'" by auto
      with same_program_trans [OF s1(2)] nu False show ?thesis unfolding eq by auto
    qed
  qed
qed

lemma pin_statement_oe:
  "pin_statement st l0 ts = Inr (st', rest) \<Longrightarrow> oe_equations st' = oe_equations st"
  unfolding pin_statement_def tok_at_def
  by (auto split: sum.splits toktype.splits prod.splits if_splits)

lemma store_equation_oe:
  "store_equation st eqneg name ts = Inr (st', rest) \<Longrightarrow> oe_equations st' = oe_equations st"
  by (auto simp: store_equation_def split: sum.splits)

lemma store_oe_equation_oe:
  assumes "store_oe_equation st eqneg name ts = Inr (st', rest)" and "sops_nonempty st"
  shows "sops_nonempty st'"
proof -
  from assms(1) obtain r sop where g: "get_equation ts = Inr (r, sop)"
    and st': "st' = st\<lparr>oe_equations := (oe_equations st)(name \<mapsto> \<lparr>negated = eqneg, sum_of_products = sop\<rparr>)\<rparr>"
    by (auto simp: store_oe_equation_def split: sum.splits)
  from get_equation_consumed [OF g] have "sop \<noteq> SopList []" by simp
  with assms(2) st' show ?thesis by (auto simp: sops_nonempty_def)
qed

lemma statement_body_oe:
  assumes r: "statement_body st eqneg ts = Inr (st', rest)" and n: "sops_nonempty st"
  shows "sops_nonempty st'"
proof (cases ts)
  case Nil
  with r show ?thesis by (simp add: statement_body_def)
next
  case (Cons tk ts')
  obtain l t where tk: "tk = (l, t)" by (cases tk)
  show ?thesis
  proof (cases t)
    case TokenKeywordPin
    with r Cons tk have "pin_statement st l ts = Inr (st', rest)"
      by (simp add: statement_body_def)
    from pin_statement_oe [OF this] n show ?thesis by (simp add: sops_nonempty_def)
  next
    case (TokenIdentifier name)
    from r Cons tk TokenIdentifier
    have "store_equation st eqneg name (drop 2 ts) = Inr (st', rest)
          \<or> store_oe_equation st eqneg name (drop 4 ts) = Inr (st', rest)"
      unfolding statement_body_def tok_at_def
      by (simp split: sum.splits toktype.splits if_splits prod.splits)
    then show ?thesis
    proof
      assume "store_equation st eqneg name (drop 2 ts) = Inr (st', rest)"
      from store_equation_oe [OF this] n show ?thesis by (simp add: sops_nonempty_def)
    next
      assume "store_oe_equation st eqneg name (drop 4 ts) = Inr (st', rest)"
      then show ?thesis using n by (rule store_oe_equation_oe)
    qed
  next
    case TokenEndCmd
    with r Cons tk n show ?thesis by (simp add: statement_body_def)
  qed (use r Cons tk in \<open>simp_all add: statement_body_def\<close>)
qed

lemma statement_oe:
  assumes r: "statement st ts = Inr (st', rest)" and n: "sops_nonempty st"
  shows "sops_nonempty st'"
proof (cases ts)
  case Nil
  with r show ?thesis by (simp add: statement_def)
next
  case (Cons tk ts')
  obtain l t where tk: "tk = (l, t)" by (cases tk)
  from r Cons tk have "statement_body st False ts = Inr (st', rest)
      \<or> statement_body st True ts' = Inr (st', rest)"
    unfolding statement_def tok_at_def
    by (simp split: sum.splits if_splits prod.splits)
  then show ?thesis using statement_body_oe n by blast
qed

lemma parse_loop_oe:
  "sops_nonempty st \<Longrightarrow> parse_loop st ts = Inr st' \<Longrightarrow> sops_nonempty st'"
proof (induction st ts arbitrary: st' rule: parse_loop.induct)
  case (1 st ts)
  show ?case
  proof (cases "ts = []")
    case True
    with "1.prems" show ?thesis by (subst (asm) parse_loop.simps) simp
  next
    case False
    from "1.prems"(2) False obtain st1 rest where
      s: "statement st ts = Inr (st1, rest)" and pl: "parse_loop st1 rest = Inr st'"
      by (subst (asm) parse_loop.simps) (auto split: sum.splits)
    from statement_oe [OF s "1.prems"(1)] have "sops_nonempty st1" .
    from "1.IH" [OF False s refl this pl] show ?thesis .
  qed
qed

lemma init_props: "sops_nonempty Assembler_init" "str_keys Assembler_init"
  by (simp_all add: sops_nonempty_def str_keys_def Assembler_init_def)

text \<open>
  Claim C8, as amended. Take a token stream that the statement loop accepts and that
  declares all 18 pins. \<^verbatim>\<open>assemble\<close> looks only at the equations stored under the names of
  the output pins 19 down to 12. If for one of these pins the level equation is not
  negated, has more than 7 products or has a product with a literal that is not the name,
  plain or negated, of one of the 16 inputs of the AND array (pins 2, 1, 3, 18, 4, 17, 5,
  16, 6, 15, 7, 14, 8, 13, 9, 11), or the OE equation is negated, has more than 1 product
  or has such a literal, then \<^verbatim>\<open>assemble\<close> raises one of the five errors for unsupported
  equations, and the error names such an output pin. Otherwise \<^verbatim>\<open>assemble\<close> returns.
\<close>

theorem assemble_unsupported_equations:
  assumes "parse_loop Assembler_init tokens = Inr st" and "all_declared st"
  shows "if \<exists>n \<in> set output_pins. pin_unsupported st n
         then \<exists>e. assemble tokens = Inl e \<and> unsupported_error e
                \<and> (\<exists>n \<in> set output_pins. pin_unsupported st n
                       \<and> pinname_by_pinnumber st n = Some (error_pin e))
         else \<exists>st'. assemble tokens = Inr st' \<and> same_program st st'"
proof -
  have n: "sops_nonempty st" using parse_loop_oe [OF init_props(1) assms(1)] .
  have "set output_pins \<subseteq> dom (pinname_by_pinnumber st)"
    using assms(2) by (auto simp: all_declared_def)
  from assemble_outputs_cases [OF assms(2) n this] show ?thesis
    using assms(1) by (simp add: assemble_def)
qed

section \<open>simplegalasm: running the statement loop on given statements\<close>

lemma parse_loop_Nil: "parse_loop st [] = Inr st"
  by (subst parse_loop.simps) simp

lemma parse_loop_pin_tokens:
  "parse_loop st (pin_tokens l number name @ rest) =
     (if number \<in> dom (pinname_by_pinnumber st) then Inl (DuplicatePinNumber number l)
      else if KInt number \<in> dom (pinnumber_by_pinname st) then Inl (DuplicatePinName name l)
      else parse_loop (declare_pin number name st) rest)"
  by (subst parse_loop.simps)
     (simp add: pin_tokens_def statement_def statement_body_def pin_statement_def tok_at_def
        declare_pin_def)

lemma declare_all_tables:
  "pinname_by_pinnumber (declare_all ds st) = names_after ds (pinname_by_pinnumber st)
   \<and> pinnumber_by_pinname (declare_all ds st) = numbers_after ds (pinnumber_by_pinname st)
   \<and> equations (declare_all ds st) = equations st
   \<and> oe_equations (declare_all ds st) = oe_equations st"
  by (induction ds arbitrary: st) (simp_all add: declare_pin_def)

lemma names_after_dom: "dom (names_after ds m) = dom m \<union> fst ` set ds"
  by (induction ds arbitrary: m) auto

lemma numbers_after_KInt: "numbers_after ds m (KInt n) = m (KInt n)"
  by (induction ds arbitrary: m) auto

lemma parse_loop_pin_lines:
  assumes "distinct (map fst ds)" and "fst ` set ds \<inter> dom (pinname_by_pinnumber st) = {}"
    and "str_keys st"
  shows "parse_loop st (pin_lines ds @ rest) = parse_loop (declare_all ds st) rest"
  using assms
proof (induction ds arbitrary: st)
  case Nil
  then show ?case by simp
next
  case (Cons d ds)
  have a: "fst d \<notin> dom (pinname_by_pinnumber st)" using Cons.prems(2) by auto
  have b: "KInt (fst d) \<notin> dom (pinnumber_by_pinname st)"
    using Cons.prems(3) by (auto simp: str_keys_def)
  have "parse_loop st (pin_lines (d # ds) @ rest)
          = parse_loop (declare_pin (fst d) (snd d) st) (pin_lines ds @ rest)"
    using a b by (simp add: parse_loop_pin_tokens)
  moreover have "distinct (map fst ds)" using Cons.prems(1) by simp
  moreover have "fst ` set ds \<inter> dom (pinname_by_pinnumber (declare_pin (fst d) (snd d) st)) = {}"
    using Cons.prems(1,2) by (auto simp: declare_pin_def)
  moreover have "str_keys (declare_pin (fst d) (snd d) st)"
    using Cons.prems(3) by (rule str_keys_declare_pin)
  ultimately show ?case using Cons.IH by simp
qed

lemma device_state:
  "parse_loop Assembler_init (pin_lines device_pins @ rest)
     = parse_loop (declare_all device_pins Assembler_init) rest"
  by (rule parse_loop_pin_lines)
     (simp_all add: device_pins_def Assembler_init_def str_keys_def)

lemma device_names:
  "pinname_by_pinnumber (declare_all device_pins Assembler_init)
     = names_after device_pins Map.empty"
  "equations (declare_all device_pins Assembler_init) = Map.empty"
  "oe_equations (declare_all device_pins Assembler_init) = Map.empty"
  by (simp_all add: declare_all_tables Assembler_init_def)

lemma parse_loop_level_equation:
  "parse_loop st [(l, TokenIdentifier out), (l, TokenEquals), (l, TokenIdentifier a), (l, TokenEndCmd)]
     = Inr (st\<lparr>equations := (equations st)(out \<mapsto> \<lparr>negated = False, sum_of_products = SopList [{a}]\<rparr>)\<rparr>)"
  by (simp add: parse_loop.simps [of _ "_ # _"] parse_loop_Nil statement_def statement_body_def tok_at_def
        store_equation_def product_loop.simps [of "_ # _"])

lemma parse_loop_negated_equation:
  "parse_loop st [(l, TokenNot), (l, TokenIdentifier out), (l, TokenEquals), (l, TokenIdentifier a),
                  (l, TokenEndCmd)]
     = Inr (st\<lparr>equations := (equations st)(out \<mapsto> \<lparr>negated = True, sum_of_products = SopList [{a}]\<rparr>)\<rparr>)"
  by (simp add: parse_loop.simps [of _ "_ # _"] parse_loop_Nil statement_def statement_body_def tok_at_def
        is_identifier_def store_equation_def product_loop.simps [of "_ # _"])

lemma device_dom:
  "dom (names_after device_pins Map.empty) = {1, 2, 3, 4, 5, 6, 7, 8, 9, 11, 12, 13, 14, 15, 16, 17, 18, 19}"
  by (simp add: names_after_dom device_pins_def) blast

lemma device_name:
  "names_after device_pins Map.empty =
     [1 \<mapsto> ''p1'', 2 \<mapsto> ''p2'', 3 \<mapsto> ''p3'', 4 \<mapsto> ''p4'', 5 \<mapsto> ''p5'', 6 \<mapsto> ''p6'',
      7 \<mapsto> ''p7'', 8 \<mapsto> ''p8'', 9 \<mapsto> ''p9'', 11 \<mapsto> ''p11'', 12 \<mapsto> ''p12'', 13 \<mapsto> ''p13'',
      14 \<mapsto> ''p14'', 15 \<mapsto> ''p15'', 16 \<mapsto> ''p16'', 17 \<mapsto> ''p17'', 18 \<mapsto> ''p18'', 19 \<mapsto> ''p19'']"
  by (simp add: device_pins_def)

lemma device_literals:
  "pin_literals (names_after device_pins Map.empty) input_pins =
     {''p11'', ''!p11'', ''p9'', ''!p9'', ''p13'', ''!p13'', ''p8'', ''!p8'',
      ''p14'', ''!p14'', ''p7'', ''!p7'', ''p15'', ''!p15'', ''p6'', ''!p6'',
      ''p16'', ''!p16'', ''p5'', ''!p5'', ''p17'', ''!p17'', ''p4'', ''!p4'',
      ''p18'', ''!p18'', ''p3'', ''!p3'', ''p1'', ''!p1'', ''p2'', ''!p2''}"
  unfolding device_name by (simp add: pin_literals_def input_pins_def)

lemma device_all_declared:
  "pinname_by_pinnumber st = names_after device_pins Map.empty \<Longrightarrow> all_declared st"
  by (simp add: all_declared_def device_dom input_pins_def output_pins_def)

lemma nonneg_parse: "parse_loop Assembler_init nonneg_example = Inr nonneg_state"
  by (simp add: nonneg_example_def nonneg_state_def device_state parse_loop_level_equation device_names)

lemma negated_parse: "parse_loop Assembler_init negated_example = Inr negated_state"
  by (simp add: negated_example_def negated_state_def device_state parse_loop_negated_equation device_names)

lemma nonneg_names: "pinname_by_pinnumber nonneg_state = names_after device_pins Map.empty"
  by (simp add: nonneg_state_def device_names)

lemma negated_names: "pinname_by_pinnumber negated_state = names_after device_pins Map.empty"
  by (simp add: negated_state_def device_names)

lemma nonneg_unsupported: "pin_unsupported nonneg_state 19"
  by (simp add: pin_unsupported_def nonneg_names device_name)
     (simp add: nonneg_state_def level_unsupported_def)

lemma negated_supported: "\<forall>n \<in> set output_pins. \<not> pin_unsupported negated_state n"
proof -
  have e: "equations negated_state = [''p19'' \<mapsto> \<lparr>negated = True, sum_of_products = SopList [{''p2''}]\<rparr>]"
    and o: "oe_equations negated_state = Map.empty"
    by (simp_all add: negated_state_def device_names)
  have l: "array_literals negated_state = pin_literals (names_after device_pins Map.empty) input_pins"
    by (simp add: array_literals_def negated_names)
  have "\<not> level_unsupported (array_literals negated_state)
           \<lparr>negated = True, sum_of_products = SopList [{''p2''}]\<rparr>"
    unfolding l device_literals by (simp add: level_unsupported_def)
  then show ?thesis
    by (simp add: pin_unsupported_def negated_names device_name e o output_pins_def)
qed

theorem assemble_unsupported_equations_witness:
  "parse_loop Assembler_init nonneg_example = Inr nonneg_state
   \<and> all_declared nonneg_state
   \<and> (\<exists>n \<in> set output_pins. pin_unsupported nonneg_state n)
   \<and> (\<exists>e. assemble nonneg_example = Inl e \<and> unsupported_error e
         \<and> (\<exists>n \<in> set output_pins. pin_unsupported nonneg_state n
                \<and> pinname_by_pinnumber nonneg_state n = Some (error_pin e)))
   \<and> parse_loop Assembler_init negated_example = Inr negated_state
   \<and> all_declared negated_state
   \<and> \<not> (\<exists>n \<in> set output_pins. pin_unsupported negated_state n)
   \<and> (\<exists>st'. assemble negated_example = Inr st' \<and> same_program negated_state st')"
proof -
  have a1: "all_declared nonneg_state" using nonneg_names by (rule device_all_declared)
  have a2: "all_declared negated_state" using negated_names by (rule device_all_declared)
  have u1: "\<exists>n \<in> set output_pins. pin_unsupported nonneg_state n"
    using nonneg_unsupported by (auto simp: output_pins_def)
  have u2: "\<not> (\<exists>n \<in> set output_pins. pin_unsupported negated_state n)"
    using negated_supported by blast
  from assemble_unsupported_equations [OF nonneg_parse a1] u1
  have c1: "\<exists>e. assemble nonneg_example = Inl e \<and> unsupported_error e
         \<and> (\<exists>n \<in> set output_pins. pin_unsupported nonneg_state n
                \<and> pinname_by_pinnumber nonneg_state n = Some (error_pin e))"
    by (simp only: if_True)
  from assemble_unsupported_equations [OF negated_parse a2] u2
  have c2: "\<exists>st'. assemble negated_example = Inr st' \<and> same_program negated_state st'"
    by (simp only: if_False)
  from nonneg_parse a1 u1 c1 negated_parse a2 u2 c2 show ?thesis by blast
qed

text \<open>
  Claim C8 as stated fails in both directions, with all 18 pins declared. The level
  equation \<^verbatim>\<open>p1 = p2;\<close> is not negated, but pin 1 is no output and \<^verbatim>\<open>assemble\<close> returns
  without an error. The equation \<^verbatim>\<open>!p19 = p12;\<close> is negated, has one product and
  references only a declared pin, but pin 12 is no input of the AND array and \<^verbatim>\<open>assemble\<close>
  raises the undefined-pin error.
\<close>

theorem assemble_unsupported_equations_counterexample:
  "assemble_error (pin_lines device_pins
      @ [(20, TokenIdentifier ''p1''), (20, TokenEquals), (20, TokenIdentifier ''p2''), (20, TokenEndCmd)])
     = None
   \<and> assemble_error (pin_lines device_pins
      @ [(20, TokenNot), (20, TokenIdentifier ''p19''), (20, TokenEquals), (20, TokenIdentifier ''p12''),
         (20, TokenEndCmd)])
     = Some (UndefinedPins ''p19'' {''p12''})"
proof -
  define S1 where "S1 = (declare_all device_pins Assembler_init)
     \<lparr>equations := [''p1'' \<mapsto> \<lparr>negated = False, sum_of_products = SopList [{''p2''}]\<rparr>]\<rparr>"
  define S2 where "S2 = (declare_all device_pins Assembler_init)
     \<lparr>equations := [''p19'' \<mapsto> \<lparr>negated = True, sum_of_products = SopList [{''p12''}]\<rparr>]\<rparr>"
  have p1: "parse_loop Assembler_init (pin_lines device_pins
      @ [(20, TokenIdentifier ''p1''), (20, TokenEquals), (20, TokenIdentifier ''p2''), (20, TokenEndCmd)])
      = Inr S1"
    by (simp add: S1_def device_state parse_loop_level_equation device_names)
  have p2: "parse_loop Assembler_init (pin_lines device_pins
      @ [(20, TokenNot), (20, TokenIdentifier ''p19''), (20, TokenEquals), (20, TokenIdentifier ''p12''),
         (20, TokenEndCmd)]) = Inr S2"
    by (simp add: S2_def device_state parse_loop_negated_equation device_names)
  have n1: "pinname_by_pinnumber S1 = names_after device_pins Map.empty"
    and n2: "pinname_by_pinnumber S2 = names_after device_pins Map.empty"
    by (simp_all add: S1_def S2_def device_names)
  have d1: "all_declared S1" using n1 by (rule device_all_declared)
  have d2: "all_declared S2" using n2 by (rule device_all_declared)
  have o1: "sops_nonempty S1" by (simp add: S1_def sops_nonempty_def device_names)
  have "\<forall>n \<in> set output_pins. \<not> pin_unsupported S1 n"
    by (simp add: pin_unsupported_def n1 device_name output_pins_def)
       (simp add: S1_def device_names)
  moreover have "set output_pins \<subseteq> dom (pinname_by_pinnumber S1)"
    using d1 by (auto simp: all_declared_def)
  ultimately have "\<exists>st'. assemble_outputs output_pins S1 = Inr st'"
    using assemble_outputs_cases [OF d1 o1, of output_pins] by auto
  then have r1: "assemble_error (pin_lines device_pins
      @ [(20, TokenIdentifier ''p1''), (20, TokenEquals), (20, TokenIdentifier ''p2''), (20, TokenEndCmd)])
     = None"
    using p1 by (auto simp: assemble_error_def assemble_def)
  have l2: "array_literals S2 = pin_literals (names_after device_pins Map.empty) input_pins"
    by (simp add: array_literals_def n2)
  have left: "{''p12''} - array_literals S2 = {''p12''}"
    unfolding l2 device_literals by simp
  from fuse_inputs_array [OF d2, of 0 "{''p12''}" "replicate (7 * 32) False"] obtain fm1 where
    "fuse_inputs (pinname_by_pinnumber S2) 0 (enumerate_list input_pins) {''p12''}
        (replicate (7 * 32) False) = Inr ({''p12''}, fm1)"
    unfolding left by blast
  then have "fuse_products (pinname_by_pinnumber S2) ''p19'' 0 [{''p12''}] (replicate (7 * 32) False)
      = Inl (UndefinedPins ''p19'' {''p12''})"
    by simp
  then have "level_fuses S2 ''p19'' = Inl (UndefinedPins ''p19'' {''p12''})"
    by (simp add: level_fuses_def S2_def device_names)
  then have "assemble_output 19 S2 = Inl (UndefinedPins ''p19'' {''p12''})"
    by (simp add: assemble_output_def n2 device_name)
  then have "assemble_outputs output_pins S2 = Inl (UndefinedPins ''p19'' {''p12''})"
    by (simp add: output_pins_def)
  then have r2: "assemble_error (pin_lines device_pins
      @ [(20, TokenNot), (20, TokenIdentifier ''p19''), (20, TokenEquals), (20, TokenIdentifier ''p12''),
         (20, TokenEndCmd)])
     = Some (UndefinedPins ''p19'' {''p12''})"
    using p2 by (simp add: assemble_error_def assemble_def)
  from r1 r2 show ?thesis by (rule conjI)
qed

section \<open>simplegalasm: duplicate pins\<close>

lemma fuse_inputs_no_dup:
  "fuse_inputs names base xs product fm \<noteq> Inl (DuplicatePinName a l)"
  by (induction names base xs product fm rule: fuse_inputs.induct)
     (auto simp: Let_def split: option.splits)

lemma fuse_products_no_dup:
  "fuse_products names out k ps fm \<noteq> Inl (DuplicatePinName a l)"
proof (induction names out k ps fm rule: fuse_products.induct)
  case (1 names outputpinname productidx fm)
  then show ?case by simp
next
  case (2 names outputpinname productidx product ps fm)
  then show ?case
    using fuse_inputs_no_dup [of names "32 * productidx" "enumerate_list input_pins" product fm a l]
    by (auto split: sum.splits)
qed

lemma level_fuses_no_dup: "level_fuses st out \<noteq> Inl (DuplicatePinName a l)"
  using fuse_products_no_dup [of "pinname_by_pinnumber st" out 0 _ _ a l]
  by (auto simp: level_fuses_def Let_def split: option.splits sum_of_products_t.splits sum.splits)

lemma oe_fuses_no_dup: "oe_fuses st out fm \<noteq> Inl (DuplicatePinName a l)"
  using fuse_inputs_no_dup [of "pinname_by_pinnumber st" 0 "enumerate_list input_pins" _ fm a l]
  by (auto simp: oe_fuses_def split: option.splits sum_of_products_t.splits sum.splits list.splits)

lemma assemble_output_no_dup: "assemble_output n st \<noteq> Inl (DuplicatePinName a l)"
  using level_fuses_no_dup [of st _ a l] oe_fuses_no_dup [of st _ _ a l]
  by (auto simp: assemble_output_def split: option.splits sum.splits)

lemma assemble_output_same:
  "assemble_output n st = Inr st' \<Longrightarrow> same_pins st st'"
  by (auto simp: assemble_output_def same_pins_def split: option.splits sum.splits)

lemma assemble_outputs_no_dup: "assemble_outputs pins st \<noteq> Inl (DuplicatePinName a l)"
  by (induction pins arbitrary: st) (auto simp: assemble_output_no_dup split: sum.splits)

lemma assemble_outputs_same:
  "assemble_outputs pins st = Inr st' \<Longrightarrow> same_pins st st'"
proof (induction pins arbitrary: st)
  case Nil
  then show ?case by (simp add: same_pins_def)
next
  case (Cons n pins)
  then obtain st1 where "assemble_output n st = Inr st1" "assemble_outputs pins st1 = Inr st'"
    by (auto split: sum.splits)
  with Cons.IH [of st1] assemble_output_same [of n st st1] show ?case
    by (simp add: same_pins_def)
qed

lemma pin_decls_pin_tokens:
  "pin_decls (pin_tokens l number name @ rest) = (number, name) # pin_decls rest"
  by (simp add: pin_tokens_def pin_decl_at_def)

lemma pin_decls_pin_lines: "pin_decls (pin_lines ds) = ds"
proof (induction ds)
  case Nil
  then show ?case by simp
next
  case (Cons d ds)
  have "pin_decls (pin_lines (d # ds)) = (fst d, snd d) # pin_decls (pin_lines ds)"
    by (simp only: pin_lines.simps pin_decls_pin_tokens)
  with Cons show ?case by simp
qed

text \<open>
  Claim C10, as amended. \<^verbatim>\<open>assemble\<close> never raises the duplicate-pin-name error. When the
  statement loop reaches a PIN statement whose number is already declared, it raises the
  duplicate-pin-number error. And whenever \<^verbatim>\<open>assemble\<close> returns, the numbers of the PIN
  statements of the stream are distinct, every declared number has kept its name, and a
  name is resolved to the number of the last PIN statement that declares it: two PIN
  statements may give the same name to two different pins, the later one wins. (Whether
  \<^verbatim>\<open>assemble\<close> returns depends on the rest of the stream.)
\<close>

theorem assemble_pin_statements:
  "(\<forall>name l. assemble tokens \<noteq> Inl (DuplicatePinName name l))
   \<and> (\<forall>st0 l number name rest. number \<in> dom (pinname_by_pinnumber st0) \<longrightarrow>
         parse_loop st0 (pin_tokens l number name @ rest) = Inl (DuplicatePinNumber number l))
   \<and> (\<forall>st. assemble tokens = Inr st \<longrightarrow>
         distinct (map fst (pin_decls tokens))
         \<and> (\<forall>d \<in> set (pin_decls tokens). pinname_by_pinnumber st (fst d) = Some (snd d))
         \<and> (\<forall>ds1 number name ds2.
               pin_decls tokens = ds1 @ (number, name) # ds2 \<and> name \<notin> snd ` set ds2 \<longrightarrow>
               pinnumber_by_pinname st (KStr name) = Some number))"
proof (intro conjI allI impI ballI)
  fix name l
  show "assemble tokens \<noteq> Inl (DuplicatePinName name l)"
    using parse_loop_no_dup [OF init_props(2), of tokens name l]
      assemble_outputs_no_dup [of output_pins _ name l]
    by (auto simp: assemble_def split: sum.splits)
next
  fix st0 :: asm_state and l number name rest
  assume "number \<in> dom (pinname_by_pinnumber st0)"
  then show "parse_loop st0 (pin_tokens l number name @ rest) = Inl (DuplicatePinNumber number l)"
    by (simp add: parse_loop_pin_tokens)
next
  fix st assume a: "assemble tokens = Inr st"
  then obtain st1 where p: "parse_loop Assembler_init tokens = Inr st1"
    and o: "assemble_outputs output_pins st1 = Inr st"
    by (auto simp: assemble_def split: sum.splits)
  from parse_loop_pins [OF init_props(2) p] assemble_outputs_same [OF o]
  have t: "pinname_by_pinnumber st = names_after (pin_decls tokens) Map.empty"
    "pinnumber_by_pinname st = numbers_after (pin_decls tokens) Map.empty"
    "distinct (map fst (pin_decls tokens))"
    by (simp_all add: same_pins_def Assembler_init_def)
  show "distinct (map fst (pin_decls tokens))" by (rule t(3))
  {
    fix d assume "d \<in> set (pin_decls tokens)"
    then have "(fst d, snd d) \<in> set (pin_decls tokens)" by simp
    from fold_names_distinct [OF t(3) this]
    show "pinname_by_pinnumber st (fst d) = Some (snd d)" by (simp add: t(1))
  }
  {
    fix ds1 number name ds2
    assume "pin_decls tokens = ds1 @ (number, name) # ds2 \<and> name \<notin> snd ` set ds2"
    then show "pinnumber_by_pinname st (KStr name) = Some number"
      by (simp add: t(2) fold_numbers_last)
  }
qed

lemma parse_loop_pin_tokens_end:
  "parse_loop st (pin_tokens l number name) =
     (if number \<in> dom (pinname_by_pinnumber st) then Inl (DuplicatePinNumber number l)
      else if KInt number \<in> dom (pinnumber_by_pinname st) then Inl (DuplicatePinName name l)
      else Inr (declare_pin number name st))"
  using parse_loop_pin_tokens [of st l number name "[]"] by (simp add: parse_loop_Nil)

lemma dup_name_parse:
  "parse_loop Assembler_init (pin_lines dup_name_pins) = Inr (declare_all dup_name_pins Assembler_init)"
proof -
  have "parse_loop Assembler_init (pin_lines dup_name_pins @ [])
          = parse_loop (declare_all dup_name_pins Assembler_init) []"
    by (rule parse_loop_pin_lines)
       (simp_all add: dup_name_pins_def Assembler_init_def str_keys_def)
  then show ?thesis by (simp add: parse_loop_Nil)
qed

lemma dup_name_returns: "\<exists>st. assemble (pin_lines dup_name_pins) = Inr st"
proof -
  define S where "S = declare_all dup_name_pins Assembler_init"
  have n: "pinname_by_pinnumber S = names_after dup_name_pins Map.empty"
    and e: "equations S = Map.empty" and o: "oe_equations S = Map.empty"
    by (simp_all add: S_def declare_all_tables Assembler_init_def)
  have dm: "dom (pinname_by_pinnumber S) = {1, 2, 3, 4, 5, 6, 7, 8, 9, 11, 12, 13, 14, 15, 16, 17, 18, 19}"
    unfolding n by (simp add: names_after_dom dup_name_pins_def) blast
  have d: "all_declared S"
    by (simp add: all_declared_def dm input_pins_def output_pins_def)
  have s: "sops_nonempty S" by (simp add: sops_nonempty_def o)
  have u: "\<forall>k \<in> set output_pins. \<not> pin_unsupported S k"
    by (simp add: pin_unsupported_def e o split: option.splits)
  have "set output_pins \<subseteq> dom (pinname_by_pinnumber S)"
    using d by (auto simp: all_declared_def)
  from assemble_outputs_cases [OF d s this] u
  have "\<exists>st'. assemble_outputs output_pins S = Inr st'" by auto
  then show ?thesis using dup_name_parse by (auto simp: assemble_def S_def)
qed

theorem assemble_pin_statements_witness:
  "1 \<in> dom (pinname_by_pinnumber (declare_pin 1 ''a'' Assembler_init))
   \<and> parse_loop (declare_pin 1 ''a'' Assembler_init) (pin_tokens 2 1 ''b'' @ [])
       = Inl (DuplicatePinNumber 1 2)
   \<and> (\<exists>st. assemble (pin_lines dup_name_pins) = Inr st
         \<and> pin_decls (pin_lines dup_name_pins) = [(1, ''a'')] @ (2, ''a'') # drop 2 dup_name_pins
         \<and> ''a'' \<notin> snd ` set (drop 2 dup_name_pins)
         \<and> pinname_by_pinnumber st 1 = Some ''a''
         \<and> pinname_by_pinnumber st 2 = Some ''a''
         \<and> pinnumber_by_pinname st (KStr ''a'') = Some 2)"
proof -
  note T = assemble_pin_statements [of "pin_lines dup_name_pins"]
  have h: "1 \<in> dom (pinname_by_pinnumber (declare_pin 1 ''a'' Assembler_init))"
    by (simp add: declare_pin_def)
  from T h have c1: "parse_loop (declare_pin 1 ''a'' Assembler_init) (pin_tokens 2 1 ''b'' @ [])
       = Inl (DuplicatePinNumber 1 2)" by blast
  from dup_name_returns obtain st where st: "assemble (pin_lines dup_name_pins) = Inr st" by blast
  have pd: "pin_decls (pin_lines dup_name_pins) = [(1, ''a'')] @ (2, ''a'') # drop 2 dup_name_pins"
    by (simp add: pin_decls_pin_lines) (simp add: dup_name_pins_def)
  have fresh: "''a'' \<notin> snd ` set (drop 2 dup_name_pins)"
    by (simp add: dup_name_pins_def)
  have m1: "(1, ''a'') \<in> set (pin_decls (pin_lines dup_name_pins))"
    and m2: "(2, ''a'') \<in> set (pin_decls (pin_lines dup_name_pins))"
    unfolding pd by simp_all
  from T st have
    names: "\<forall>d \<in> set (pin_decls (pin_lines dup_name_pins)). pinname_by_pinnumber st (fst d) = Some (snd d)"
    and last: "\<forall>ds1 number name ds2.
               pin_decls (pin_lines dup_name_pins) = ds1 @ (number, name) # ds2 \<and> name \<notin> snd ` set ds2 \<longrightarrow>
               pinnumber_by_pinname st (KStr name) = Some number"
    by blast+
  from names m1 have r1: "pinname_by_pinnumber st 1 = Some ''a''" by fastforce
  from names m2 have r2: "pinname_by_pinnumber st 2 = Some ''a''" by fastforce
  from last pd fresh have r3: "pinnumber_by_pinname st (KStr ''a'') = Some 2" by blast
  from h c1 st pd fresh r1 r2 r3 show ?thesis by blast
qed

text \<open>
  Claim C10 as stated fails: a stream of two PIN statements that give the name \<^verbatim>\<open>a\<close> to the
  pins 1 and 2 does not make \<^verbatim>\<open>assemble\<close> complete without error. The statement loop
  accepts it, and the loop over the outputs then fails with a \<^verbatim>\<open>KeyError\<close>, since pin 19
  has no name.
\<close>

theorem assemble_pin_statements_counterexample:
  "assemble_error (pin_tokens 1 1 ''a'' @ pin_tokens 2 2 ''a'') = Some KeyError"
proof -
  have "parse_loop Assembler_init (pin_tokens 1 1 ''a'' @ pin_tokens 2 2 ''a'')
          = Inr (declare_pin 2 ''a'' (declare_pin 1 ''a'' Assembler_init))"
    by (simp add: parse_loop_pin_tokens parse_loop_pin_tokens_end declare_pin_def Assembler_init_def)
  moreover have "assemble_outputs output_pins (declare_pin 2 ''a'' (declare_pin 1 ''a'' Assembler_init))
          = Inl KeyError"
    by (simp add: output_pins_def assemble_output_def declare_pin_def Assembler_init_def)
  ultimately show ?thesis by (simp add: assemble_error_def assemble_def)
qed

end
